theory Spec2Isabelle
  imports Main "HOL-Library.Word" "HOL-Library.Sublist"
begin

unbundle bit_operations_syntax

chapter \<open>The model\<close>

section \<open>Exceptions, outcomes and JSON values\<close>

text \<open>
  The C++ code signals failure by throwing. An exception does not undo the writes made
  before it, so an operation on an object yields either \<open>Throws e s\<close> (the exception and
  the object as the throw leaves it) or \<open>Returns r s\<close> (the result and the object after
  the call). \<open>contract_violation\<close> is a failed \<open>Expects\<close>/\<open>Ensures\<close>,
  \<open>out_of_range\<close> a failed \<open>at()\<close>, \<open>json_type_error\<close> an exception of the JSON
  library, \<open>null_dereference\<close> the use of an empty \<open>unique_ptr\<close>.
\<close>

datatype error =
  invalid_argument | logic_error | out_of_range | contract_violation
  | json_type_error | null_dereference

datatype ('a, 's) outcome = Throws error 's | Returns 'a 's

text \<open>
  A value of the JSON library (\<open>nlohmann::json\<close>). The three number kinds of the
  library are kept apart; a floating-point number is represented by the value its
  conversion to \<open>uint64_t\<close> yields, a signed one by its two's complement bits.
\<close>

datatype json =
  JNull | JBool bool | JUnsigned "64 word" | JInteger "64 word" | JFloat "64 word"
  | JString string | JArray "json list" | JObject "(string \<times> json) list"

fun is_number :: "json \<Rightarrow> bool" where
  "is_number (JUnsigned _) = True"
| "is_number (JInteger _) = True"
| "is_number (JFloat _) = True"
| "is_number _ = False"

fun is_string :: "json \<Rightarrow> bool" where
  "is_string (JString _) = True"
| "is_string _ = False"

fun is_array :: "json \<Rightarrow> bool" where
  "is_array (JArray _) = True"
| "is_array _ = False"

fun to_uint64 :: "json \<Rightarrow> 64 word" where
  "to_uint64 (JUnsigned w) = w"
| "to_uint64 (JInteger w) = w"
| "to_uint64 (JFloat w) = w"
| "to_uint64 _ = 0"

text \<open>\<open>json::size()\<close>: 0 for null, the number of elements of an array or object, else 1.\<close>

fun json_size :: "json \<Rightarrow> nat" where
  "json_size JNull = 0"
| "json_size (JArray xs) = length xs"
| "json_size (JObject kvs) = length kvs"
| "json_size _ = 1"

text \<open>\<open>std::to_string\<close> of an unsigned integer: its decimal digits.\<close>

fun to_string :: "nat \<Rightarrow> string" where
  "to_string n =
     (if n < 10 then [char_of (48 + n)]
      else to_string (n div 10) @ [char_of (48 + n mod 10)])"

declare to_string.simps [simp del]

section \<open>The failover table\<close>

record failover_entry_t =
  vb_uuid :: "64 word"
  by_seqno :: "64 word"

text \<open>
  \<open>table\<close> is the \<open>std::list\<close> of entries, front first. \<open>cachedTableJSON\<close> is
  a \<open>std::string\<close>. \<open>provider\<close> is the random generator: the sequence of values its
  \<open>next()\<close> is going to return, and \<open>provider_pos\<close> how many of them have been
  drawn. \<open>dump\<close> is \<open>nlohmann::json::dump()\<close>: the JSON library is outside the
  repository, so the table carries its printing function as a parameter, as it carries
  its generator.
\<close>

record FailoverTable =
  table :: "failover_entry_t list"
  max_entries :: nat
  erroneousEntriesErased :: nat
  latest_uuid :: "64 word"
  cachedTableJSON :: string
  provider :: "nat \<Rightarrow> 64 word"
  provider_pos :: nat
  dump :: "json \<Rightarrow> string"

definition table_json :: "failover_entry_t list \<Rightarrow> json" where
  "table_json t =
     JArray (map (\<lambda>e. JObject [(''id'', JUnsigned (vb_uuid e)),
                                  (''seq'', JUnsigned (by_seqno e))]) t)"

definition cacheTableJSON :: "FailoverTable \<Rightarrow> FailoverTable" where
  "cacheTableJSON ft = ft\<lparr>cachedTableJSON := dump ft (table_json (table ft))\<rparr>"

definition removeLatestEntry :: "FailoverTable \<Rightarrow> FailoverTable" where
  "removeLatestEntry ft =
     (if table ft \<noteq> [] then cacheTableJSON (ft\<lparr>table := tl (table ft)\<rparr>) else ft)"

text \<open>
  The \<open>do ... while (0 == entry.vb_uuid)\<close> loop of \<open>createEntry\<close>. It runs for as long
  as the generator yields values whose upper 48 bits are zero, so it need not return.
\<close>

partial_function (option) generate_uuid ::
  "(nat \<Rightarrow> 64 word) \<Rightarrow> nat \<Rightarrow> (64 word \<times> nat) option" where
  "generate_uuid prov i =
     (let u = drop_bit 16 (prov i)
      in if u = 0 then generate_uuid prov (Suc i) else Some (u, Suc i))"

text \<open>The loop \<open>while (table.size() > max_entries) table.pop_back()\<close>.\<close>

function cap_size :: "nat \<Rightarrow> failover_entry_t list \<Rightarrow> failover_entry_t list" where
  "cap_size n t = (if length t > n then cap_size n (butlast t) else t)"
  by pat_completeness auto
termination
  by (relation "measure (\<lambda>(n, t). length t)") auto

declare cap_size.simps [simp del]

definition createEntry :: "64 word \<Rightarrow> FailoverTable \<Rightarrow> FailoverTable option" where
  "createEntry high_seqno ft =
     (let t1 = filter (\<lambda>e. \<not> by_seqno e > high_seqno) (table ft)
      in case generate_uuid (provider ft) (provider_pos ft) of
           None \<Rightarrow> None
         | Some (u, p) \<Rightarrow>
             Some (cacheTableJSON
               (ft\<lparr>table := cap_size (max_entries ft)
                              (\<lparr>vb_uuid = u, by_seqno = high_seqno\<rparr> # t1),
                   latest_uuid := u,
                   provider_pos := p\<rparr>)))"

text \<open>
  \<open>getLastSeqnoForUUID\<close> is not used by the properties below.
  \<open>adjustSnapshotRange\<close> returns the two snapshot bounds it updates by reference.
\<close>

definition adjustSnapshotRange :: "64 word \<Rightarrow> 64 word \<Rightarrow> 64 word \<Rightarrow> 64 word \<times> 64 word" where
  "adjustSnapshotRange start_seqno snap_start_seqno snap_end_seqno =
     (if start_seqno = snap_end_seqno then (start_seqno, snap_end_seqno)
      else if start_seqno = snap_start_seqno then (snap_start_seqno, start_seqno)
      else (snap_start_seqno, snap_end_seqno))"

text \<open>
  The reverse walk of \<open>needsRollback\<close> over the table, oldest entry first. The argument
  is the table reversed; the result is \<open>None\<close> when the walk reaches \<open>rend()\<close> without
  a match, and otherwise the value of \<open>upper\<close> when the walk breaks: the seqno of the
  entry after the match in walking order (the next newer one) if there is one, else the
  initial \<open>upper\<close>.
\<close>

fun find_upper :: "64 word \<Rightarrow> 64 word \<Rightarrow> failover_entry_t list \<Rightarrow> 64 word option" where
  "find_upper vbuuid upper [] = None"
| "find_upper vbuuid upper (e # rest) =
     (if vb_uuid e = vbuuid
      then (case rest of [] \<Rightarrow> Some upper | newer # _ \<Rightarrow> Some (by_seqno newer))
      else find_upper vbuuid upper rest)"

text \<open>
  \<open>needsRollback\<close> returns the pair of the source and, third, what it wrote to
  \<open>*rollback_seqno\<close> (\<open>None\<close> when it returned before writing).
\<close>

definition needsRollback ::
  "64 word \<Rightarrow> 64 word \<Rightarrow> 64 word \<Rightarrow> 64 word \<Rightarrow> 64 word \<Rightarrow> 64 word \<Rightarrow> bool
     \<Rightarrow> 64 word option \<Rightarrow> FailoverTable \<Rightarrow> bool \<times> string \<times> 64 word option" where
  "needsRollback start_seqno cur_seqno vbuuid snap_start_seqno snap_end_seqno purge_seqno
       strictVbUuidMatch maxCollectionHighSeqno ft =
     (if start_seqno = 0 \<and> (\<not> strictVbUuidMatch \<or> vbuuid = 0) then (False, [], None)
      else
        let (snap_start, snap_end) =
              adjustSnapshotRange start_seqno snap_start_seqno snap_end_seqno;
            allowNonRollBackCollectionStream =
              (case maxCollectionHighSeqno of
                 None \<Rightarrow> False
               | Some m \<Rightarrow> start_seqno < purge_seqno \<and> start_seqno \<ge> m \<and> m \<le> purge_seqno)
        in if start_seqno < purge_seqno \<and> start_seqno \<noteq> 0
              \<and> \<not> allowNonRollBackCollectionStream
           then (True,
                 ''purge seqno ('' @ to_string (unat purge_seqno) @
                 '') is greater than start seqno - could miss purged deletions'',
                 Some 0)
           else
             (case find_upper vbuuid cur_seqno (rev (table ft)) of
                None \<Rightarrow>
                  (True,
                   ''vBucket UUID not found in failover table, '' @
                   ''consumer and producer have no common history'',
                   Some 0)
              | Some upper \<Rightarrow>
                  if snap_end \<le> upper then (False, [], Some 0)
                  else (True,
                        ''consumer ahead of producer - producer upper at '' @
                        to_string (unat upper),
                        Some (if upper < snap_start then upper else snap_start))))"

definition pruneEntries :: "64 word \<Rightarrow> FailoverTable \<Rightarrow> (unit, FailoverTable) outcome" where
  "pruneEntries seqno ft =
     (if seqno = 0 then Throws invalid_argument ft
      else
        let seqno_too_high = (\<lambda>e. by_seqno e > seqno);
            count = length (filter seqno_too_high (table ft))
        in if length (table ft) - count < 1 then Throws invalid_argument ft
           else
             let t = filter (\<lambda>e. \<not> seqno_too_high e) (table ft)
             in Returns () (cacheTableJSON (ft\<lparr>table := t, latest_uuid := vb_uuid (hd t)\<rparr>)))"

text \<open>
  \<open>loadFromJSON(const nlohmann::json&)\<close>: the entries are gathered in \<open>new_table\<close> and
  installed only when every element passed the checks.
\<close>

definition entry_of_json :: "json \<Rightarrow> failover_entry_t option" where
  "entry_of_json it =
     (case it of
        JObject kvs \<Rightarrow>
          (case map_of kvs ''id'' of
             None \<Rightarrow> None
           | Some jid \<Rightarrow>
               if \<not> is_number jid then None
               else (case map_of kvs ''seq'' of
                       None \<Rightarrow> None
                     | Some jseq \<Rightarrow>
                         if \<not> is_number jseq then None
                         else Some \<lparr>vb_uuid = to_uint64 jid, by_seqno = to_uint64 jseq\<rparr>))
      | _ \<Rightarrow> None)"

fun load_entries :: "json list \<Rightarrow> failover_entry_t list \<Rightarrow> failover_entry_t list option" where
  "load_entries [] new_table = Some new_table"
| "load_entries (it # its) new_table =
     (case entry_of_json it of
        None \<Rightarrow> None
      | Some entry \<Rightarrow> load_entries its (new_table @ [entry]))"

definition loadFromJSON :: "json \<Rightarrow> FailoverTable \<Rightarrow> bool \<times> FailoverTable" where
  "loadFromJSON j ft =
     (case j of
        JArray its \<Rightarrow>
          (case load_entries its [] of
             None \<Rightarrow> (False, ft)
           | Some new_table \<Rightarrow>
               if new_table = [] then (False, ft)
               else (True, ft\<lparr>table := new_table, latest_uuid := vb_uuid (hd new_table)\<rparr>))
      | _ \<Rightarrow> (False, ft))"

text \<open>
  \<open>loadFromJSON(const std::string&)\<close>. The parser of the JSON library is outside the
  repository: \<open>parsed\<close> is what \<open>nlohmann::json::parse(json)\<close> returns for the string,
  \<open>None\<close> when it throws.
\<close>

definition loadFromJSON_string ::
  "string \<Rightarrow> json option \<Rightarrow> FailoverTable \<Rightarrow> bool \<times> FailoverTable" where
  "loadFromJSON_string js parsed ft =
     (case parsed of
        None \<Rightarrow> (False, ft)
      | Some p \<Rightarrow>
          (let (ret, ft') = loadFromJSON p ft
           in (ret, ft'\<lparr>cachedTableJSON := js\<rparr>)))"

text \<open>
  \<open>replaceFailoverLog\<close>. \<open>be64\<close> is \<open>memcpy\<close> into a \<open>uint64_t\<close> followed by
  \<open>ntohll\<close>: the eight bytes read as a big-endian number. The loop counts \<open>length\<close>
  down by 16 from a multiple of 16, so the unsigned subtraction never wraps: the branch
  \<open>n < 16\<close> of the loop, where it would, is not reached from \<open>replaceFailoverLog\<close>.
  Reading past the end of the buffer is undefined in C++; here it reads fewer bytes.
\<close>

definition be64 :: "8 word list \<Rightarrow> 64 word" where
  "be64 bs = foldl (\<lambda>acc b. push_bit 8 acc OR ucast b) 0 bs"

definition read_entry :: "8 word list \<Rightarrow> nat \<Rightarrow> failover_entry_t" where
  "read_entry bytes n =
     \<lparr>vb_uuid = be64 (take 8 (drop (n - 16) bytes)),
      by_seqno = be64 (take 8 (drop (n - 8) bytes))\<rparr>"

function replace_loop ::
  "8 word list \<Rightarrow> nat \<Rightarrow> failover_entry_t list \<Rightarrow> failover_entry_t list" where
  "replace_loop bytes n t =
     (if n > 0
      then (if 16 \<le> n then replace_loop bytes (n - 16) (read_entry bytes n # t) else t)
      else t)"
  by pat_completeness auto
termination
  by (relation "measure (\<lambda>(bytes, n, t). n)") auto

declare replace_loop.simps [simp del]

definition replaceFailoverLog ::
  "8 word list \<Rightarrow> 32 word \<Rightarrow> FailoverTable \<Rightarrow> (unit, FailoverTable) outcome" where
  "replaceFailoverLog bytes len ft =
     (if len mod 16 \<noteq> 0 \<or> len = 0 then Throws invalid_argument ft
      else
        let t = replace_loop bytes (unat len) []
        in Returns () (cacheTableJSON (ft\<lparr>table := t, latest_uuid := vb_uuid (hd t)\<rparr>)))"

text \<open>
  The erase loop of \<open>sanitizeFailoverTable\<close>: \<open>kept\<close> are the entries before the
  iterator (those that survived), so \<open>itr != table.begin()\<close> is \<open>kept \<noteq> []\<close> and
  \<open>std::prev(itr)\<close> is the last of them.
\<close>

fun sanitize_loop ::
  "failover_entry_t list \<Rightarrow> failover_entry_t list \<Rightarrow> failover_entry_t list" where
  "sanitize_loop kept [] = kept"
| "sanitize_loop kept (e # rest) =
     (if vb_uuid e = 0 then sanitize_loop kept rest
      else if kept \<noteq> [] \<and> by_seqno e > by_seqno (last kept) then sanitize_loop kept rest
      else sanitize_loop (kept @ [e]) rest)"

text \<open>
  \<open>highSeqno\<close> is an \<open>int64_t\<close> that \<open>createEntry\<close> takes as \<open>uint64_t\<close>: the same
  64 bits.
\<close>

definition sanitizeFailoverTable :: "64 word \<Rightarrow> FailoverTable \<Rightarrow> FailoverTable option" where
  "sanitizeFailoverTable highSeqno ft =
     (let t = sanitize_loop [] (table ft);
          ft1 = ft\<lparr>table := t,
                   erroneousEntriesErased :=
                     erroneousEntriesErased ft + (length (table ft) - length t)\<rparr>
      in if t = [] then createEntry highSeqno ft1
         else if erroneousEntriesErased ft1 \<noteq> 0 then Some (cacheTableJSON ft1)
         else Some ft1)"


text \<open>
  The two constructors. \<open>FailoverTable_init\<close> is the object after the member
  initialisers: an empty table, an empty string, the capacity and a zero count;
  \<open>latest_uuid\<close>, which every path that constructs a table assigns, starts at 0.
  \<open>FailoverTable(size_t capacity)\<close> then calls \<open>createEntry(0)\<close> and
  \<open>cacheTableJSON()\<close>. \<open>FailoverTable(const std::string& json, size_t capacity,
  int64_t highSeqno)\<close>, the one caller of \<open>loadFromJSON(const std::string&)\<close>, throws
  \<open>invalid_argument\<close> when the load fails, so that no table is constructed, and
  otherwise calls \<open>sanitizeFailoverTable\<close>. \<open>prov\<close> is the generator the table
  draws its UUIDs from and \<open>dmp\<close> the printing function of the JSON library.
\<close>

definition FailoverTable_init ::
  "nat \<Rightarrow> (nat \<Rightarrow> 64 word) \<Rightarrow> (json \<Rightarrow> string) \<Rightarrow> FailoverTable" where
  "FailoverTable_init capacity prov dmp =
     \<lparr>table = [], max_entries = capacity, erroneousEntriesErased = 0,
      latest_uuid = 0, cachedTableJSON = [], provider = prov,
      provider_pos = 0, dump = dmp\<rparr>"

definition FailoverTable_new ::
  "nat \<Rightarrow> (nat \<Rightarrow> 64 word) \<Rightarrow> (json \<Rightarrow> string) \<Rightarrow> FailoverTable option" where
  "FailoverTable_new capacity prov dmp =
     map_option cacheTableJSON (createEntry 0 (FailoverTable_init capacity prov dmp))"

definition FailoverTable_from_JSON ::
  "string \<Rightarrow> json option \<Rightarrow> nat \<Rightarrow> 64 word \<Rightarrow> (nat \<Rightarrow> 64 word) \<Rightarrow> (json \<Rightarrow> string)
     \<Rightarrow> (error + FailoverTable) option" where
  "FailoverTable_from_JSON js parsed capacity highSeqno prov dmp =
     (let (ok, ft) = loadFromJSON_string js parsed (FailoverTable_init capacity prov dmp)
      in if \<not> ok then Some (Inl invalid_argument)
         else map_option Inr (sanitizeFailoverTable highSeqno ft))"

section \<open>The active durability monitor\<close>

subsection \<open>Data\<close>

text \<open>
  \<open>Level_None\<close> is \<open>cb::durability::Level::None\<close>. A timeout of 0 in the requirements
  means that none was given. Sequence numbers are \<open>int64_t\<close>; the monitor only compares
  them, so they are integers here. A \<open>queued_item\<close> is reduced to what the monitor reads.
\<close>

datatype Level = Level_None | Majority | MajorityAndPersistOnMaster | PersistToMajority

datatype Tracking = Memory | Disk

datatype vbucket_state_t =
  vbucket_state_active | vbucket_state_replica | vbucket_state_pending | vbucket_state_dead

datatype ENGINE_ERROR_CODE = ENGINE_SUCCESS | ENGINE_FAILED

record Requirements =
  level :: Level
  timeout :: nat

record Item =
  key :: string
  bySeqno :: int
  durabilityReqs :: Requirements

record Ack =
  ack_memory :: bool
  ack_disk :: bool

text \<open>
  A tracked SyncWrite. \<open>ackCount\<close> and \<open>majority\<close> are \<open>uint8_t\<close>. A time point of
  the steady clock is its count of nanoseconds.
\<close>

record SyncWrite =
  cookie :: nat
  item :: Item
  acks :: "string \<rightharpoonup> Ack"
  ackCount_memory :: "8 word"
  ackCount_disk :: "8 word"
  sw_majority :: "8 word"
  expiryTime :: "int option"
  sw_active :: string

text \<open>
  An iterator into the \<open>std::list\<close> of tracked SyncWrites is the position of the node
  it designates, \<open>None\<close> for \<open>end()\<close>. Removing a node moves every later node one
  position down; \<open>removeSyncWrite\<close> below renumbers the iterators to later nodes
  accordingly, which in C++ costs nothing (they keep designating their nodes).
\<close>

record Position =
  it :: "nat option"
  lastWriteSeqno :: int
  lastAckSeqno :: int

record NodePosition =
  memory :: Position
  disk :: Position

record ReplicationChain =
  positions :: "string \<rightharpoonup> NodePosition"
  majority :: "8 word"
  active :: string

record State =
  trackedWrites :: "SyncWrite list"
  firstChain :: "ReplicationChain option"
  lastTrackedSeqno :: int

text \<open>
  The VBucket the monitor calls back. \<open>commit_status\<close> and \<open>abort_status\<close> are what
  \<open>VBucket::commit\<close> and \<open>VBucket::abort\<close> return for a key and a prepare seqno;
  \<open>calls\<close> records the calls the monitor made, oldest first.
\<close>

datatype vb_call = Commit string int nat | Abort string int nat

record VBucket =
  vb_state :: vbucket_state_t
  persistenceSeqno :: int
  commit_status :: "string \<Rightarrow> int \<Rightarrow> ENGINE_ERROR_CODE"
  abort_status :: "string \<Rightarrow> int \<Rightarrow> ENGINE_ERROR_CODE"
  calls :: "vb_call list"

record ADM =
  state :: State
  vb :: VBucket

definition UndefinedNode :: string where
  "UndefinedNode = []"

definition maxReplicas :: nat where
  "maxReplicas = 3"

definition getBySeqno :: "SyncWrite \<Rightarrow> int" where
  "getBySeqno sw = bySeqno (item sw)"

fun pos_of :: "Tracking \<Rightarrow> NodePosition \<Rightarrow> Position" where
  "pos_of Memory np = memory np"
| "pos_of Disk np = disk np"

fun set_pos :: "Tracking \<Rightarrow> Position \<Rightarrow> NodePosition \<Rightarrow> NodePosition" where
  "set_pos Memory p np = np\<lparr>memory := p\<rparr>"
| "set_pos Disk p np = np\<lparr>disk := p\<rparr>"

subsection \<open>ReplicationChain and SyncWrite\<close>

text \<open>
  The constructor of \<open>ReplicationChain\<close>. \<open>majority\<close> counts every node of the vector,
  undefined ones included; \<open>positions\<close> holds the defined ones. \<open>emplace_nodes\<close> is
  the loop over \<open>nodes\<close>.
\<close>

fun emplace_nodes ::
  "string list \<Rightarrow> nat option \<Rightarrow> (string \<rightharpoonup> NodePosition)
     \<Rightarrow> error + (string \<rightharpoonup> NodePosition)" where
  "emplace_nodes [] i m = Inr m"
| "emplace_nodes (node # nodes) i m =
     (if node = UndefinedNode then emplace_nodes nodes i m
      else if m node \<noteq> None then Inl invalid_argument
      else emplace_nodes nodes i
             (m(node \<mapsto> \<lparr>memory = \<lparr>it = i, lastWriteSeqno = 0, lastAckSeqno = 0\<rparr>,
                          disk = \<lparr>it = i, lastWriteSeqno = 0, lastAckSeqno = 0\<rparr>\<rparr>)))"

definition ReplicationChain_new :: "string list \<Rightarrow> nat option \<Rightarrow> error + ReplicationChain" where
  "ReplicationChain_new nodes i =
     (case nodes of
        [] \<Rightarrow> Inl out_of_range
      | first # _ \<Rightarrow>
          if first = UndefinedNode then Inl invalid_argument
          else (case emplace_nodes nodes i Map.empty of
                  Inl e \<Rightarrow> Inl e
                | Inr m \<Rightarrow>
                    Inr \<lparr>positions = m,
                         majority = of_nat (length nodes div 2 + 1),
                         active = first\<rparr>))"

definition chain_size :: "ReplicationChain \<Rightarrow> nat" where
  "chain_size chain = card (dom (positions chain))"

text \<open>
  \<open>ReplicationChain::isDurabilityPossible\<close>, with its two \<open>Expects\<close>.
\<close>

definition chain_isDurabilityPossible :: "ReplicationChain \<Rightarrow> error + bool" where
  "chain_isDurabilityPossible chain =
     (if chain_size chain = 0 then Inl contract_violation
      else if majority chain = 0 then Inl contract_violation
      else Inr (chain_size chain \<ge> unat (majority chain)))"

text \<open>
  The constructor of \<open>SyncWrite\<close>; \<open>now\<close> is what \<open>steady_clock::now()\<close> returns, and
  the timeout is in milliseconds.
\<close>

definition SyncWrite_new :: "nat \<Rightarrow> Item \<Rightarrow> ReplicationChain \<Rightarrow> int \<Rightarrow> error + SyncWrite" where
  "SyncWrite_new c i chain now =
     (if \<not> chain_size chain \<ge> unat (majority chain) then Inl contract_violation
      else Inr \<lparr>cookie = c,
                item = i,
                acks = (\<lambda>node. case positions chain node of
                                   None \<Rightarrow> None
                                 | Some _ \<Rightarrow> Some \<lparr>ack_memory = False, ack_disk = False\<rparr>),
                ackCount_memory = 0,
                ackCount_disk = 0,
                sw_majority = majority chain,
                expiryTime =
                  (if timeout (durabilityReqs i) \<noteq> 0
                   then Some (now + 1000000 * int (timeout (durabilityReqs i)))
                   else None),
                sw_active = active chain\<rparr>)"

definition ack :: "string \<Rightarrow> Tracking \<Rightarrow> SyncWrite \<Rightarrow> error + SyncWrite" where
  "ack node tracking sw =
     (case acks sw node of
        None \<Rightarrow> Inl logic_error
      | Some a \<Rightarrow>
          (case tracking of
             Memory \<Rightarrow>
               if ack_memory a then Inl logic_error
               else Inr (sw\<lparr>acks := (acks sw)(node \<mapsto> a\<lparr>ack_memory := True\<rparr>),
                            ackCount_memory := ackCount_memory sw + 1\<rparr>)
           | Disk \<Rightarrow>
               if ack_disk a then Inl logic_error
               else Inr (sw\<lparr>acks := (acks sw)(node \<mapsto> a\<lparr>ack_disk := True\<rparr>),
                            ackCount_disk := ackCount_disk sw + 1\<rparr>)))"

definition isSatisfied :: "SyncWrite \<Rightarrow> error + bool" where
  "isSatisfied sw =
     (case level (durabilityReqs (item sw)) of
        Majority \<Rightarrow> Inr (ackCount_memory sw \<ge> sw_majority sw)
      | MajorityAndPersistOnMaster \<Rightarrow>
          if ackCount_memory sw \<ge> sw_majority sw
          then (case acks sw (sw_active sw) of
                  None \<Rightarrow> Inl out_of_range
                | Some a \<Rightarrow> Inr (ack_disk a))
          else Inr False
      | Level_None \<Rightarrow> Inl logic_error
      | PersistToMajority \<Rightarrow> Inr (ackCount_disk sw \<ge> sw_majority sw))"

definition isExpired :: "SyncWrite \<Rightarrow> int \<Rightarrow> bool" where
  "isExpired sw asOf = (case expiryTime sw of None \<Rightarrow> False | Some t \<Rightarrow> t < asOf)"

subsection \<open>State\<close>

definition begin_it :: "State \<Rightarrow> nat option" where
  "begin_it s = (if trackedWrites s = [] then None else Some 0)"

text \<open>\<open>std::next\<close> of an iterator to the node at position \<open>i\<close>.\<close>

definition next_it :: "State \<Rightarrow> nat \<Rightarrow> nat option" where
  "next_it s i = (if Suc i < length (trackedWrites s) then Some (Suc i) else None)"

text \<open>
  \<open>firstChain->positions.at(node)\<close>, read for one tracking; the chain pointer is null
  in no state in which the code evaluates it, and a use of it while null is reported as
  \<open>null_dereference\<close>.
\<close>

definition node_position :: "string \<Rightarrow> Tracking \<Rightarrow> State \<Rightarrow> error + Position" where
  "node_position node tracking s =
     (case firstChain s of
        None \<Rightarrow> Inl null_dereference
      | Some chain \<Rightarrow>
          (case positions chain node of
             None \<Rightarrow> Inl out_of_range
           | Some np \<Rightarrow> Inr (pos_of tracking np)))"

definition put_position :: "string \<Rightarrow> Tracking \<Rightarrow> Position \<Rightarrow> State \<Rightarrow> State" where
  "put_position node tracking p s =
     (case firstChain s of
        None \<Rightarrow> s
      | Some chain \<Rightarrow>
          (case positions chain node of
             None \<Rightarrow> s
           | Some np \<Rightarrow>
               s\<lparr>firstChain :=
                    Some (chain\<lparr>positions := (positions chain)(node \<mapsto> set_pos tracking p np)\<rparr>)\<rparr>))"

definition getNodeNext :: "string \<Rightarrow> Tracking \<Rightarrow> State \<Rightarrow> error + nat option" where
  "getNodeNext node tracking s =
     (case node_position node tracking s of
        Inl e \<Rightarrow> Inl e
      | Inr pos \<Rightarrow>
          Inr (case it pos of None \<Rightarrow> begin_it s | Some i \<Rightarrow> next_it s i))"

text \<open>
  \<open>advanceNodePosition\<close>. Each step writes to the state before the next one may throw:
  the iterator, then \<open>lastWriteSeqno\<close> (a \<open>WeaklyMonotonic\<close> that throws when the new
  value is smaller), then the ack on the SyncWrite.
\<close>

definition advanceNodePosition :: "string \<Rightarrow> Tracking \<Rightarrow> State \<Rightarrow> (unit, State) outcome" where
  "advanceNodePosition node tracking s =
     (case node_position node tracking s of
        Inl e \<Rightarrow> Throws e s
      | Inr pos \<Rightarrow>
          let new_it = (case it pos of None \<Rightarrow> begin_it s | Some i \<Rightarrow> next_it s i);
              pos1 = pos\<lparr>it := new_it\<rparr>;
              s1 = put_position node tracking pos1 s
          in (case new_it of
                None \<Rightarrow> Throws contract_violation s1
              | Some i \<Rightarrow>
                  let sw = trackedWrites s1 ! i
                  in if getBySeqno sw < lastWriteSeqno pos1 then Throws logic_error s1
                     else
                       let pos2 = pos1\<lparr>lastWriteSeqno := getBySeqno sw\<rparr>;
                           s2 = put_position node tracking pos2 s1
                       in (case ack node tracking sw of
                             Inl e \<Rightarrow> Throws e s2
                           | Inr sw' \<Rightarrow>
                               Returns () (s2\<lparr>trackedWrites := (trackedWrites s2)[i := sw']\<rparr>))))"

definition updateNodeAck :: "string \<Rightarrow> Tracking \<Rightarrow> int \<Rightarrow> State \<Rightarrow> (unit, State) outcome" where
  "updateNodeAck node tracking seqno s =
     (case node_position node tracking s of
        Inl e \<Rightarrow> Throws e s
      | Inr pos \<Rightarrow>
          if seqno < lastAckSeqno pos then Throws logic_error s
          else Returns () (put_position node tracking (pos\<lparr>lastAckSeqno := seqno\<rparr>) s))"

definition getActive :: "State \<Rightarrow> error + string" where
  "getActive s = (case firstChain s of None \<Rightarrow> Inl null_dereference | Some chain \<Rightarrow> Inr (active chain))"

text \<open>
  \<open>removeSyncWrite\<close>. \<open>reposition i prev\<close> is what happens to an iterator when the
  node at position \<open>i\<close> is spliced out: one that designates that node is set to \<open>prev\<close>
  by the code; one that designates a later node designates the same node afterwards,
  which is then one position down.
\<close>

definition reposition :: "nat \<Rightarrow> nat option \<Rightarrow> nat option \<Rightarrow> nat option" where
  "reposition i prev x =
     (case x of
        None \<Rightarrow> None
      | Some j \<Rightarrow> if j = i then prev else if j > i then Some (j - 1) else Some j)"

definition reposition_node :: "nat \<Rightarrow> nat option \<Rightarrow> NodePosition \<Rightarrow> NodePosition" where
  "reposition_node i prev np =
     np\<lparr>memory := (memory np)\<lparr>it := reposition i prev (it (memory np))\<rparr>,
        disk := (disk np)\<lparr>it := reposition i prev (it (disk np))\<rparr>\<rparr>"

definition removeSyncWrite :: "nat option \<Rightarrow> State \<Rightarrow> (SyncWrite list, State) outcome" where
  "removeSyncWrite x s =
     (case x of
        None \<Rightarrow> Throws logic_error s
      | Some i \<Rightarrow>
          let prev = (if i = 0 then None else Some (i - 1))
          in (case firstChain s of
                None \<Rightarrow> Throws null_dereference s
              | Some chain \<Rightarrow>
                  Returns [trackedWrites s ! i]
                    (s\<lparr>firstChain :=
                         Some (chain\<lparr>positions :=
                                 (\<lambda>node. map_option (reposition_node i prev)
                                                      (positions chain node))\<rparr>),
                       trackedWrites :=
                         take i (trackedWrites s) @ drop (Suc i) (trackedWrites s)\<rparr>)))"

text \<open>
  The loop of \<open>processSeqnoAck\<close>. \<open>remaining\<close>, the number of tracked SyncWrites
  after the iterator of the node, decreases with every round: the iterator advances, and
  a removal takes it back by one while the list shrinks by one.
\<close>

definition remaining :: "string \<Rightarrow> Tracking \<Rightarrow> State \<Rightarrow> nat" where
  "remaining node tracking s =
     (case node_position node tracking s of
        Inl e \<Rightarrow> 0
      | Inr pos \<Rightarrow>
          length (trackedWrites s) - (case it pos of None \<Rightarrow> 0 | Some i \<Rightarrow> Suc i))"

function processSeqnoAck_loop ::
  "string \<Rightarrow> Tracking \<Rightarrow> int \<Rightarrow> SyncWrite list \<Rightarrow> State
     \<Rightarrow> (SyncWrite list, State) outcome" where
  "processSeqnoAck_loop node tracking ackSeqno toCommit s =
     (case getNodeNext node tracking s of
        Inl e \<Rightarrow> Throws e s
      | Inr None \<Rightarrow> Returns toCommit s
      | Inr (Some j) \<Rightarrow>
          if getBySeqno (trackedWrites s ! j) \<le> ackSeqno
          then (case advanceNodePosition node tracking s of
                  Throws e s1 \<Rightarrow> Throws e s1
                | Returns u s1 \<Rightarrow>
                    (case node_position node tracking s1 of
                       Inl e \<Rightarrow> Throws e s1
                     | Inr pos \<Rightarrow>
                         (case it pos of
                            None \<Rightarrow> Throws null_dereference s1
                          | Some i \<Rightarrow>
                              (case isSatisfied (trackedWrites s1 ! i) of
                                 Inl e \<Rightarrow> Throws e s1
                               | Inr sat \<Rightarrow>
                                   if sat
                                   then (case removeSyncWrite (it pos) s1 of
                                           Throws e s2 \<Rightarrow> Throws e s2
                                         | Returns removed s2 \<Rightarrow>
                                             processSeqnoAck_loop node tracking ackSeqno
                                               (toCommit @ removed) s2)
                                   else processSeqnoAck_loop node tracking ackSeqno
                                          toCommit s1))))
          else Returns toCommit s)"
  by pat_completeness auto

definition processSeqnoAck ::
  "string \<Rightarrow> Tracking \<Rightarrow> int \<Rightarrow> SyncWrite list \<Rightarrow> State
     \<Rightarrow> (SyncWrite list, State) outcome" where
  "processSeqnoAck node tracking ackSeqno toCommit s =
     (case firstChain s of
        None \<Rightarrow> Throws logic_error s
      | Some chain \<Rightarrow>
          (case processSeqnoAck_loop node tracking ackSeqno toCommit s of
             Throws e s1 \<Rightarrow> Throws e s1
           | Returns toCommit1 s1 \<Rightarrow>
               (case updateNodeAck node tracking ackSeqno s1 of
                  Throws e s2 \<Rightarrow> Throws e s2
                | Returns u s2 \<Rightarrow> Returns toCommit1 s2)))"

text \<open>
  \<open>State::setReplicationTopology\<close>: the nodes of the first chain, an entry that is
  not a string standing for an undefined node; the new chain starts every iterator at
  \<open>trackedWrites.begin()\<close>. The chain is built before it is assigned, so a constructor
  that throws leaves the old chain in place.
\<close>

definition node_name :: "json \<Rightarrow> string" where
  "node_name j = (case j of JString n \<Rightarrow> n | _ \<Rightarrow> UndefinedNode)"

definition State_setReplicationTopology :: "json \<Rightarrow> State \<Rightarrow> (unit, State) outcome" where
  "State_setReplicationTopology topology s =
     (case topology of
        JArray (JArray nodes # others) \<Rightarrow>
          (case ReplicationChain_new (map node_name nodes) (begin_it s) of
             Inl e \<Rightarrow> Throws e s
           | Inr chain \<Rightarrow> Returns () (s\<lparr>firstChain := Some chain\<rparr>))
      | _ \<Rightarrow> Throws json_type_error s)"

text \<open>
  \<open>State::addSyncWrite\<close>: the SyncWrite is appended first; \<open>lastTrackedSeqno\<close> is a
  \<open>Monotonic\<close> that throws unless the new value is greater.
\<close>

definition State_addSyncWrite :: "nat \<Rightarrow> Item \<Rightarrow> int \<Rightarrow> State \<Rightarrow> (unit, State) outcome" where
  "State_addSyncWrite c i now s =
     (case firstChain s of
        None \<Rightarrow> Throws null_dereference s
      | Some chain \<Rightarrow>
          (case SyncWrite_new c i chain now of
             Inl e \<Rightarrow> Throws e s
           | Inr sw \<Rightarrow>
               let s1 = s\<lparr>trackedWrites := trackedWrites s @ [sw]\<rparr>
               in if bySeqno i > lastTrackedSeqno s1
                  then Returns () (s1\<lparr>lastTrackedSeqno := bySeqno i\<rparr>)
                  else Throws logic_error s1))"

text \<open>
  The loop of \<open>removeExpired\<close>: \<open>i\<close> is the position of the iterator \<open>it\<close>. After a
  removal the node that followed is at the same position.
\<close>

function removeExpired_loop ::
  "int \<Rightarrow> nat \<Rightarrow> SyncWrite list \<Rightarrow> State \<Rightarrow> (SyncWrite list, State) outcome" where
  "removeExpired_loop asOf i expired s =
     (if i < length (trackedWrites s)
      then (if isExpired (trackedWrites s ! i) asOf
            then (case removeSyncWrite (Some i) s of
                    Throws e s1 \<Rightarrow> Throws e s1
                  | Returns removed s1 \<Rightarrow> removeExpired_loop asOf i (expired @ removed) s1)
            else removeExpired_loop asOf (Suc i) expired s)
      else Returns expired s)"
  by pat_completeness auto

definition removeExpired :: "int \<Rightarrow> SyncWrite list \<Rightarrow> State \<Rightarrow> (SyncWrite list, State) outcome" where
  "removeExpired asOf expired s = removeExpired_loop asOf 0 expired s"

subsection \<open>The monitor\<close>

text \<open>
  A new monitor: no chain, nothing tracked, \<open>lastTrackedSeqno\<close> at the default of
  \<open>Monotonic\<close>, the least \<open>int64_t\<close>.
\<close>

definition ADM_new :: "VBucket \<Rightarrow> ADM" where
  "ADM_new v =
     \<lparr>state = \<lparr>trackedWrites = [], firstChain = None, lastTrackedSeqno = - (2 ^ 63)\<rparr>,
      vb = v\<rparr>"

text \<open>\<open>json::at(0)\<close>.\<close>

definition json_at0 :: "json \<Rightarrow> error + json" where
  "json_at0 j =
     (case j of
        JArray [] \<Rightarrow> Inl out_of_range
      | JArray (x # xs) \<Rightarrow> Inr x
      | _ \<Rightarrow> Inl json_type_error)"

definition setReplicationTopology :: "json \<Rightarrow> ADM \<Rightarrow> (unit, ADM) outcome" where
  "setReplicationTopology topology adm =
     (if vb_state (vb adm) = vbucket_state_replica then Throws invalid_argument adm
      else if \<not> is_array topology then Throws invalid_argument adm
      else if json_size topology = 0 then Throws invalid_argument adm
      else (case json_at0 topology of
              Inl e \<Rightarrow> Throws e adm
            | Inr chain \<Rightarrow>
                if json_size chain = 0 then Throws invalid_argument adm
                else if json_size chain > 1 + maxReplicas then Throws invalid_argument adm
                else (case json_at0 chain of
                        Inl e \<Rightarrow> Throws e adm
                      | Inr first \<Rightarrow>
                          if \<not> is_string first then Throws invalid_argument adm
                          else (case State_setReplicationTopology topology (state adm) of
                                  Throws e s \<Rightarrow> Throws e (adm\<lparr>state := s\<rparr>)
                                | Returns u s \<Rightarrow> Returns () (adm\<lparr>state := s\<rparr>)))))"

definition isDurabilityPossible :: "ADM \<Rightarrow> error + bool" where
  "isDurabilityPossible adm =
     (case firstChain (state adm) of
        None \<Rightarrow> Inr False
      | Some chain \<Rightarrow> chain_isDurabilityPossible chain)"

text \<open>
  \<open>addSyncWrite\<close>; \<open>now\<close> is the reading of the steady clock when the SyncWrite is
  constructed. The two \<open>Ensures\<close> at the end compare what \<open>getNodeWriteSeqnos\<close> and
  \<open>getNodeAckSeqnos\<close> report for the active node with the seqno of the item.
\<close>

definition addSyncWrite :: "nat \<Rightarrow> Item \<Rightarrow> int \<Rightarrow> ADM \<Rightarrow> (unit, ADM) outcome" where
  "addSyncWrite c i now adm =
     (if level (durabilityReqs i) = Level_None then Throws invalid_argument adm
      else
        (case isDurabilityPossible adm of
           Inl e \<Rightarrow> Throws e adm
         | Inr possible \<Rightarrow>
             if \<not> possible then Throws logic_error adm
             else
               (case State_addSyncWrite c i now (state adm) of
                  Throws e s1 \<Rightarrow> Throws e (adm\<lparr>state := s1\<rparr>)
                | Returns u1 s1 \<Rightarrow>
                    (case getActive s1 of
                       Inl e \<Rightarrow> Throws e (adm\<lparr>state := s1\<rparr>)
                     | Inr thisNode \<Rightarrow>
                         (case advanceNodePosition thisNode Memory s1 of
                            Throws e s2 \<Rightarrow> Throws e (adm\<lparr>state := s2\<rparr>)
                          | Returns u2 s2 \<Rightarrow>
                              (case updateNodeAck thisNode Memory (bySeqno i) s2 of
                                 Throws e s3 \<Rightarrow> Throws e (adm\<lparr>state := s3\<rparr>)
                               | Returns u3 s3 \<Rightarrow>
                                   (case node_position thisNode Memory s3 of
                                      Inl e \<Rightarrow> Throws e (adm\<lparr>state := s3\<rparr>)
                                    | Inr pos \<Rightarrow>
                                        if lastWriteSeqno pos \<noteq> bySeqno i
                                        then Throws contract_violation (adm\<lparr>state := s3\<rparr>)
                                        else if lastAckSeqno pos \<noteq> bySeqno i
                                        then Throws contract_violation (adm\<lparr>state := s3\<rparr>)
                                        else Returns () (adm\<lparr>state := s3\<rparr>))))))))"

text \<open>
  \<open>commit\<close> and \<open>abort\<close> call the VBucket and throw unless it answers
  \<open>ENGINE_SUCCESS\<close>; \<open>commit_all\<close> and \<open>abort_all\<close> are the loops over
  \<open>toCommit\<close> and \<open>toAbort\<close>, which an exception leaves.
\<close>

definition commit :: "SyncWrite \<Rightarrow> VBucket \<Rightarrow> (unit, VBucket) outcome" where
  "commit sw v =
     (let v1 = v\<lparr>calls := calls v @ [Commit (key (item sw)) (getBySeqno sw) (cookie sw)]\<rparr>
      in if commit_status v (key (item sw)) (getBySeqno sw) \<noteq> ENGINE_SUCCESS
         then Throws logic_error v1 else Returns () v1)"

definition abort :: "SyncWrite \<Rightarrow> VBucket \<Rightarrow> (unit, VBucket) outcome" where
  "abort sw v =
     (let v1 = v\<lparr>calls := calls v @ [Abort (key (item sw)) (getBySeqno sw) (cookie sw)]\<rparr>
      in if abort_status v (key (item sw)) (getBySeqno sw) \<noteq> ENGINE_SUCCESS
         then Throws logic_error v1 else Returns () v1)"

fun commit_all :: "SyncWrite list \<Rightarrow> VBucket \<Rightarrow> (unit, VBucket) outcome" where
  "commit_all [] v = Returns () v"
| "commit_all (sw # sws) v =
     (case commit sw v of
        Throws e v1 \<Rightarrow> Throws e v1
      | Returns u v1 \<Rightarrow> commit_all sws v1)"

fun abort_all :: "SyncWrite list \<Rightarrow> VBucket \<Rightarrow> (unit, VBucket) outcome" where
  "abort_all [] v = Returns () v"
| "abort_all (sw # sws) v =
     (case abort sw v of
        Throws e v1 \<Rightarrow> Throws e v1
      | Returns u v1 \<Rightarrow> abort_all sws v1)"

definition seqnoAckReceived :: "string \<Rightarrow> int \<Rightarrow> ADM \<Rightarrow> (ENGINE_ERROR_CODE, ADM) outcome" where
  "seqnoAckReceived replica preparedSeqno adm =
     (case processSeqnoAck replica Memory preparedSeqno [] (state adm) of
        Throws e s1 \<Rightarrow> Throws e (adm\<lparr>state := s1\<rparr>)
      | Returns toCommit1 s1 \<Rightarrow>
          (case processSeqnoAck replica Disk preparedSeqno toCommit1 s1 of
             Throws e s2 \<Rightarrow> Throws e (adm\<lparr>state := s2\<rparr>)
           | Returns toCommit s2 \<Rightarrow>
               (case commit_all toCommit (vb adm) of
                  Throws e v \<Rightarrow> Throws e (adm\<lparr>state := s2, vb := v\<rparr>)
                | Returns u v \<Rightarrow> Returns ENGINE_SUCCESS (adm\<lparr>state := s2, vb := v\<rparr>))))"

definition processTimeout :: "int \<Rightarrow> ADM \<Rightarrow> (unit, ADM) outcome" where
  "processTimeout asOf adm =
     (if vb_state (vb adm) \<noteq> vbucket_state_active then Throws logic_error adm
      else
        (case removeExpired asOf [] (state adm) of
           Throws e s1 \<Rightarrow> Throws e (adm\<lparr>state := s1\<rparr>)
         | Returns toAbort s1 \<Rightarrow>
             (case abort_all toAbort (vb adm) of
                Throws e v \<Rightarrow> Throws e (adm\<lparr>state := s1, vb := v\<rparr>)
              | Returns u v \<Rightarrow> Returns () (adm\<lparr>state := s1, vb := v\<rparr>))))"

definition notifyLocalPersistence :: "ADM \<Rightarrow> (unit, ADM) outcome" where
  "notifyLocalPersistence adm =
     (case getActive (state adm) of
        Inl e \<Rightarrow> Throws e adm
      | Inr thisNode \<Rightarrow>
          (case processSeqnoAck thisNode Disk (persistenceSeqno (vb adm)) [] (state adm) of
             Throws e s1 \<Rightarrow> Throws e (adm\<lparr>state := s1\<rparr>)
           | Returns toCommit s1 \<Rightarrow>
               (case commit_all toCommit (vb adm) of
                  Throws e v \<Rightarrow> Throws e (adm\<lparr>state := s1, vb := v\<rparr>)
                | Returns u v \<Rightarrow> Returns () (adm\<lparr>state := s1, vb := v\<rparr>))))"

definition getTrackedSeqnos :: "ADM \<Rightarrow> int list" where
  "getTrackedSeqnos adm = map getBySeqno (trackedWrites (state adm))"

section \<open>The collections manifest\<close>










subsection \<open>Equality\<close>






subsection \<open>\<open>isSuccessor\<close>\<close>




chapter \<open>Predicates and examples\<close>

section \<open>Failover table: predicates and example tables\<close>

text \<open>The four invariants of the specification, one predicate each.\<close>

definition uuids_nonzero :: "failover_entry_t list \<Rightarrow> bool" where
  "uuids_nonzero t = list_all (\<lambda>e. vb_uuid e \<noteq> 0) t"

definition seqnos_decreasing :: "failover_entry_t list \<Rightarrow> bool" where
  "seqnos_decreasing t = sorted_wrt (\<lambda>a b. by_seqno b < by_seqno a) t"

definition seqnos_nonincreasing :: "failover_entry_t list \<Rightarrow> bool" where
  "seqnos_nonincreasing t = sorted_wrt (\<lambda>a b. by_seqno b \<le> by_seqno a) t"

definition ft_inv :: "FailoverTable \<Rightarrow> bool" where
  "ft_inv ft =
     (table ft \<noteq> [] \<and> uuids_nonzero (table ft) \<and> seqnos_nonincreasing (table ft)
      \<and> length (table ft) \<le> max_entries ft)"

text \<open>
  The wire format as the specification words it: the buffer read from its start, one
  entry per 16-byte record, the UUID in the first eight bytes and the seqno in the last
  eight, both big-endian.
\<close>

fun buffer_records :: "8 word list \<Rightarrow> failover_entry_t list" where
  "buffer_records bs =
     (if length bs < 16 then []
      else \<lparr>vb_uuid = be64 (take 8 bs), by_seqno = be64 (take 8 (drop 8 bs))\<rparr>
             # buffer_records (drop 16 bs))"

declare buffer_records.simps [simp del]

definition entries :: "FailoverTable \<Rightarrow> (nat \<times> nat) list" where
  "entries ft = map (\<lambda>e. (unat (vb_uuid e), unat (by_seqno e))) (table ft)"

text \<open>
  A generator whose \<open>n\<close>-th value is \<open>n\<close> shifted left by 16 bits: its first value
  makes \<open>createEntry\<close> draw again.
\<close>

definition counter_provider :: "nat \<Rightarrow> 64 word" where
  "counter_provider n = push_bit 16 (of_nat n)"

text \<open>
  A printing function for the example tables. On the arrays \<open>cacheTableJSON\<close> builds
  it prints what the JSON library prints without indentation, such as
  \<open>[{"id":1,"seq":0}]\<close>; everything else it prints as \<open>null\<close>.
\<close>

definition quoted :: "string \<Rightarrow> string" where
  "quoted s = CHR 0x22 # s @ [CHR 0x22]"

fun separated :: "string list \<Rightarrow> string" where
  "separated [] = []"
| "separated [x] = x"
| "separated (x # y # ys) = x @ '','' @ separated (y # ys)"

definition compact_dump :: "json \<Rightarrow> string" where
  "compact_dump j =
     (case j of
        JArray its \<Rightarrow>
          ''['' @ separated (map (\<lambda>it. case entry_of_json it of
                                         None \<Rightarrow> ''null''
                                       | Some e \<Rightarrow>
                                           ''{'' @ quoted ''id'' @ '':''
                                             @ to_string (unat (vb_uuid e)) @ '',''
                                             @ quoted ''seq'' @ '':''
                                             @ to_string (unat (by_seqno e)) @ ''}'') its)
            @ '']''
      | _ \<Rightarrow> ''null'')"

definition fresh_table :: FailoverTable where
  "fresh_table =
     \<lparr>table = [\<lparr>vb_uuid = 1, by_seqno = 0\<rparr>],
      max_entries = 25, erroneousEntriesErased = 0, latest_uuid = 1,
      cachedTableJSON = compact_dump (table_json [\<lparr>vb_uuid = 1, by_seqno = 0\<rparr>]),
      provider = counter_provider, provider_pos = 2, dump = compact_dump\<rparr>"

definition two_branches :: FailoverTable where
  "two_branches =
     \<lparr>table = [\<lparr>vb_uuid = 7, by_seqno = 200\<rparr>, \<lparr>vb_uuid = 3, by_seqno = 100\<rparr>],
      max_entries = 25, erroneousEntriesErased = 0, latest_uuid = 7,
      cachedTableJSON =
        compact_dump
          (table_json [\<lparr>vb_uuid = 7, by_seqno = 200\<rparr>, \<lparr>vb_uuid = 3, by_seqno = 100\<rparr>]),
      provider = counter_provider, provider_pos = 0, dump = compact_dump\<rparr>"

text \<open>
  Two tables with entries as \<open>loadFromJSON\<close> may install them, before
  \<open>sanitizeFailoverTable\<close>: one with a zero UUID and an entry out of order, and one
  with zero UUIDs only.
\<close>

definition legacy_table :: FailoverTable where
  "legacy_table =
     \<lparr>table = [\<lparr>vb_uuid = 0, by_seqno = 50\<rparr>, \<lparr>vb_uuid = 9, by_seqno = 40\<rparr>,
               \<lparr>vb_uuid = 8, by_seqno = 45\<rparr>, \<lparr>vb_uuid = 6, by_seqno = 40\<rparr>],
      max_entries = 25, erroneousEntriesErased = 0, latest_uuid = 0,
      cachedTableJSON = [],
      provider = counter_provider, provider_pos = 0, dump = compact_dump\<rparr>"

definition zero_uuid_table :: FailoverTable where
  "zero_uuid_table =
     \<lparr>table = [\<lparr>vb_uuid = 0, by_seqno = 50\<rparr>, \<lparr>vb_uuid = 0, by_seqno = 40\<rparr>],
      max_entries = 25, erroneousEntriesErased = 0, latest_uuid = 0,
      cachedTableJSON = [],
      provider = counter_provider, provider_pos = 0, dump = compact_dump\<rparr>"

text \<open>Two records: (UUID 1, seqno 2) at offset 0 and (UUID 3, seqno 260) at offset 16.\<close>

definition two_records :: "8 word list" where
  "two_records =
     [0,0,0,0,0,0,0,1, 0,0,0,0,0,0,0,2, 0,0,0,0,0,0,0,3, 0,0,0,0,0,0,1,4]"

section \<open>Active durability monitor: predicates and example states\<close>

text \<open>Reading an outcome, and running one operation after another.\<close>

fun outcome_state :: "('a, 's) outcome \<Rightarrow> 's" where
  "outcome_state (Throws e s) = s"
| "outcome_state (Returns r s) = s"

fun returned :: "('a, 's) outcome \<Rightarrow> 'a option" where
  "returned (Throws e s) = None"
| "returned (Returns r s) = Some r"


definition and_then :: "('a, 's) outcome \<Rightarrow> ('s \<Rightarrow> ('b, 's) outcome) \<Rightarrow> ('b, 's) outcome" where
  "and_then r f = (case r of Throws e s \<Rightarrow> Throws e s | Returns x s \<Rightarrow> f s)"

text \<open>An active VBucket whose \<open>commit\<close> and \<open>abort\<close> succeed, and prepares.\<close>

definition active_vb :: VBucket where
  "active_vb =
     \<lparr>vb_state = vbucket_state_active, persistenceSeqno = 0,
      commit_status = (\<lambda>k s. ENGINE_SUCCESS), abort_status = (\<lambda>k s. ENGINE_SUCCESS),
      calls = []\<rparr>"

definition prepare :: "string \<Rightarrow> int \<Rightarrow> Level \<Rightarrow> nat \<Rightarrow> Item" where
  "prepare k seqno l t =
     \<lparr>key = k, bySeqno = seqno, durabilityReqs = \<lparr>level = l, timeout = t\<rparr>\<rparr>"

definition topology_a_r1_r2 :: json where
  "topology_a_r1_r2 = JArray [JArray [JString ''a'', JString ''r1'', JString ''r2'']]"

text \<open>
  Scenario 1 of the specification before the ack: the topology \<open>[["a","r1","r2"]]\<close>
  and three \<open>Majority\<close> prepares with seqnos 10, 11 and 12 (cookies 1, 2 and 3).
\<close>

definition three_prepares :: "(unit, ADM) outcome" where
  "three_prepares =
     and_then (and_then (and_then
       (setReplicationTopology topology_a_r1_r2 (ADM_new active_vb))
       (addSyncWrite 1 (prepare ''k10'' 10 Majority 0) 0))
       (addSyncWrite 2 (prepare ''k11'' 11 Majority 0) 0))
       (addSyncWrite 3 (prepare ''k12'' 12 Majority 0) 0)"



text \<open>
  The seqnos of the tracked SyncWrites in list order, and those of the SyncWrites after
  the iterator of a node, which the node has not been seen to acknowledge: the loop of
  \<open>processSeqnoAck\<close> works through them from the front.
\<close>

definition tracked_seqnos :: "State \<Rightarrow> int list" where
  "tracked_seqnos s = map getBySeqno (trackedWrites s)"

definition cursor_next :: "nat option \<Rightarrow> nat" where
  "cursor_next x = (case x of None \<Rightarrow> 0 | Some i \<Rightarrow> Suc i)"

definition unacked :: "string \<Rightarrow> Tracking \<Rightarrow> State \<Rightarrow> int list" where
  "unacked node tracking s =
     (case node_position node tracking s of
        Inl e \<Rightarrow> []
      | Inr pos \<Rightarrow> drop (cursor_next (it pos)) (tracked_seqnos s))"

text \<open>
  The loop of \<open>processSeqnoAck\<close> for an ack seqno \<open>a\<close> has nothing to do for a node:
  nothing follows its iterator, or the SyncWrite that follows has a seqno above \<open>a\<close>.
\<close>

definition stopped :: "string \<Rightarrow> Tracking \<Rightarrow> int \<Rightarrow> State \<Rightarrow> bool" where
  "stopped node tracking a s =
     (case unacked node tracking s of [] \<Rightarrow> True | x # xs \<Rightarrow> a < x)"




section \<open>Collections manifest: example manifests\<close>







chapter \<open>Proofs\<close>

section \<open>Active durability monitor: termination of the loops\<close>

lemma node_position_put:
  "node_position node tracking (put_position node tracking p s) =
     (case node_position node tracking s of Inl e \<Rightarrow> Inl e | Inr q \<Rightarrow> Inr p)"
  by (cases tracking)
     (auto simp: node_position_def put_position_def split: option.splits)

lemma trackedWrites_put [simp]:
  "trackedWrites (put_position node tracking p s) = trackedWrites s"
  by (auto simp: put_position_def split: option.splits)

lemma node_position_trackedWrites_update [simp]:
  "node_position node tracking (s\<lparr>trackedWrites := t\<rparr>) = node_position node tracking s"
  by (simp add: node_position_def)

lemma getNodeNext_Some:
  assumes "getNodeNext node tracking s = Inr (Some j)"
  shows "j < length (trackedWrites s) \<and> remaining node tracking s = length (trackedWrites s) - j"
  using assms
  by (auto simp: getNodeNext_def remaining_def begin_it_def next_it_def
           split: sum.splits option.splits if_splits)

lemma advanceNodePosition_Returns:
  assumes n: "getNodeNext node tracking s = Inr (Some j)"
    and a: "advanceNodePosition node tracking s = Returns u s1"
  shows "\<exists>p. node_position node tracking s1 = Inr p \<and> it p = Some j"
    and "length (trackedWrites s1) = length (trackedWrites s)"
proof -
  from n obtain pos where pos: "node_position node tracking s = Inr pos"
    and nx: "(case it pos of None \<Rightarrow> begin_it s | Some i \<Rightarrow> next_it s i) = Some j"
    by (auto simp: getNodeNext_def split: sum.splits)
  let ?pos1 = "pos\<lparr>it := Some j\<rparr>"
  let ?s1 = "put_position node tracking ?pos1 s"
  let ?sw = "trackedWrites ?s1 ! j"
  let ?pos2 = "?pos1\<lparr>lastWriteSeqno := getBySeqno ?sw\<rparr>"
  let ?s2 = "put_position node tracking ?pos2 ?s1"
  from a pos nx obtain sw' where s1: "s1 = ?s2\<lparr>trackedWrites := (trackedWrites ?s2)[j := sw']\<rparr>"
    by (auto simp: advanceNodePosition_def Let_def split: sum.splits if_splits)
  show "\<exists>p. node_position node tracking s1 = Inr p \<and> it p = Some j"
    unfolding s1 by (simp add: node_position_put pos)
  show "length (trackedWrites s1) = length (trackedWrites s)"
    unfolding s1 by simp
qed

lemma removeSyncWrite_Returns:
  assumes p: "node_position node tracking s = Inr pos" and i: "it pos = Some i"
    and r: "removeSyncWrite (Some i) s = Returns removed s2"
    and l: "i < length (trackedWrites s)"
  shows "remaining node tracking s2 = length (trackedWrites s) - Suc i"
    and "length (trackedWrites s2) = length (trackedWrites s) - 1"
    and "removed = [trackedWrites s ! i]"
proof -
  from p obtain chain np where c: "firstChain s = Some chain"
    and np: "positions chain node = Some np" and pp: "pos_of tracking np = pos"
    by (auto simp: node_position_def split: option.splits)
  let ?prev = "if i = 0 then None else Some (i - 1)"
  from r c have s2: "s2 = s\<lparr>firstChain :=
                         Some (chain\<lparr>positions :=
                                 (\<lambda>node. map_option (reposition_node i ?prev)
                                                      (positions chain node))\<rparr>),
                       trackedWrites :=
                         take i (trackedWrites s) @ drop (Suc i) (trackedWrites s)\<rparr>"
    and rm: "removed = [trackedWrites s ! i]"
    by (auto simp: removeSyncWrite_def Let_def)
  show "removed = [trackedWrites s ! i]" by (rule rm)
  show len: "length (trackedWrites s2) = length (trackedWrites s) - 1"
    unfolding s2 using l by simp
  have "node_position node tracking s2 = Inr (pos\<lparr>it := ?prev\<rparr>)"
    unfolding s2 using np pp i
    by (cases tracking) (auto simp: node_position_def reposition_node_def reposition_def)
  then show "remaining node tracking s2 = length (trackedWrites s) - Suc i"
    using len l by (auto simp: remaining_def)
qed

termination processSeqnoAck_loop
proof (relation "measure (\<lambda>(node, tracking, ackSeqno, toCommit, s). remaining node tracking s)",
       goal_cases)
  case 1
  show ?case by simp
next
  case (2 node tracking ackSeqno toCommit s b j u s1 pos i sat removed s2)
  then have n: "getNodeNext node tracking s = Inr (Some j)"
    and rm: "removeSyncWrite (Some i) s1 = Returns removed s2" by simp_all
  from getNodeNext_Some[OF n]
  have j: "j < length (trackedWrites s)"
    and r: "remaining node tracking s = length (trackedWrites s) - j" by simp_all
  from advanceNodePosition_Returns[OF n 2(4)] 2(5,6)
  have ij: "i = j" and len: "length (trackedWrites s1) = length (trackedWrites s)" by auto
  from removeSyncWrite_Returns(1)[OF 2(5) 2(6) rm] j ij len
  have "remaining node tracking s2 = length (trackedWrites s) - Suc j" by simp
  with r j show ?case by simp
next
  case (3 node tracking ackSeqno toCommit s b j u s1 pos i sat)
  then have n: "getNodeNext node tracking s = Inr (Some j)" by simp
  from getNodeNext_Some[OF n]
  have j: "j < length (trackedWrites s)"
    and r: "remaining node tracking s = length (trackedWrites s) - j" by simp_all
  from advanceNodePosition_Returns[OF n 3(4)] 3(5,6)
  have ij: "i = j" and len: "length (trackedWrites s1) = length (trackedWrites s)" by auto
  have "remaining node tracking s1 = length (trackedWrites s) - Suc j"
    using 3(5,6) ij len by (simp add: remaining_def)
  with r j show ?case by simp
qed


termination removeExpired_loop
proof (relation "measure (\<lambda>(asOf, i, expired, s). length (trackedWrites s) - i)", goal_cases)
  case 1
  show ?case by simp
next
  case (2 asOf i expired s removed s1)
  then have "length (trackedWrites s1) = length (trackedWrites s) - 1"
    by (auto simp: removeSyncWrite_def Let_def split: option.splits)
  with 2(1) show ?case by simp
next
  case (3 asOf i expired s)
  then show ?case by simp
qed

declare processSeqnoAck_loop.simps [simp del]

declare removeExpired_loop.simps [simp del]

section \<open>Failover table: lemmas\<close>

lemma cap_size_take: "cap_size n t = take n t"
proof (induction n t rule: cap_size.induct)
  case (1 n t)
  show ?case
  proof (cases "length t > n")
    case True
    then have "cap_size n t = take n (butlast t)" using 1 by (simp add: cap_size.simps[of n t])
    also have "\<dots> = take n t" using True by (simp add: take_butlast)
    finally show ?thesis .
  next
    case False
    then show ?thesis by (simp add: cap_size.simps[of n t])
  qed
qed

lemma generate_uuid_Some:
  assumes "generate_uuid prov i = Some y"
  shows "fst y \<noteq> 0 \<and> i < snd y"
  using assms
proof (induction rule: generate_uuid.raw_induct[rotated 1, consumes 1])
  case (1 generate_uuid prov i y)
  show ?case
  proof (cases "drop_bit 16 (prov i) = 0")
    case True
    with 1(2) have "generate_uuid prov (Suc i) = Some y" by (simp add: Let_def)
    from 1(1)[OF this] show ?thesis by simp
  next
    case False
    with 1(2) show ?thesis by (auto simp: Let_def)
  qed
qed

lemma generate_uuid_terminates:
  "drop_bit 16 (prov (i + k)) \<noteq> 0 \<Longrightarrow> generate_uuid prov i \<noteq> None"
proof (induction k arbitrary: i)
  case 0
  then show ?case by (subst generate_uuid.simps) (simp add: Let_def)
next
  case (Suc k)
  then have "generate_uuid prov (Suc i) \<noteq> None" by simp
  then show ?case by (subst generate_uuid.simps) (simp add: Let_def)
qed

lemma createEntry_table:
  assumes "createEntry h ft = Some ft'"
  shows "\<exists>u. u \<noteq> 0 \<and> table ft' = take (max_entries ft)
            (\<lparr>vb_uuid = u, by_seqno = h\<rparr> # filter (\<lambda>e. \<not> by_seqno e > h) (table ft))
          \<and> max_entries ft' = max_entries ft \<and> latest_uuid ft' = u"
proof -
  from assms obtain u p where g: "generate_uuid (provider ft) (provider_pos ft) = Some (u, p)"
    by (auto simp: createEntry_def Let_def split: option.splits)
  from generate_uuid_Some[OF g] have "u \<noteq> 0" by simp
  moreover from assms g have "table ft' = take (max_entries ft)
            (\<lparr>vb_uuid = u, by_seqno = h\<rparr> # filter (\<lambda>e. \<not> by_seqno e > h) (table ft))
          \<and> max_entries ft' = max_entries ft \<and> latest_uuid ft' = u"
    by (auto simp: createEntry_def Let_def cacheTableJSON_def cap_size_take)
  ultimately show ?thesis by blast
qed

lemma createEntry_inv:
  assumes nz: "uuids_nonzero (table ft)" and ni: "seqnos_nonincreasing (table ft)"
    and pos: "0 < max_entries ft" and c: "createEntry h ft = Some ft'"
  shows "ft_inv ft'"
proof -
  from createEntry_table[OF c] obtain u where u: "u \<noteq> 0"
    and t: "table ft' = take (max_entries ft)
            (\<lparr>vb_uuid = u, by_seqno = h\<rparr> # filter (\<lambda>e. \<not> by_seqno e > h) (table ft))"
    and m: "max_entries ft' = max_entries ft" by blast
  let ?new = "\<lparr>vb_uuid = u, by_seqno = h\<rparr> # filter (\<lambda>e. \<not> by_seqno e > h) (table ft)"
  have "uuids_nonzero ?new" using nz u by (auto simp: uuids_nonzero_def list_all_iff)
  then have 1: "uuids_nonzero (table ft')"
    unfolding t uuids_nonzero_def list_all_iff using in_set_takeD by fast
  have "seqnos_nonincreasing ?new" using ni
    by (auto simp: seqnos_nonincreasing_def sorted_wrt_filter not_less)
  then have 2: "seqnos_nonincreasing (table ft')"
    unfolding t seqnos_nonincreasing_def by (rule sorted_wrt_take)
  have 3: "table ft' \<noteq> []" using pos unfolding t by (cases "max_entries ft") auto
  have 4: "length (table ft') \<le> max_entries ft'" unfolding t m by simp
  from 1 2 3 4 show ?thesis by (simp add: ft_inv_def)
qed

lemma createEntry_returns:
  assumes "drop_bit 16 (provider ft (provider_pos ft + k)) \<noteq> 0"
  shows "\<exists>ft'. createEntry h ft = Some ft'"
proof -
  from assms have "generate_uuid (provider ft) (provider_pos ft) \<noteq> None"
    by (rule generate_uuid_terminates)
  then obtain u p where "generate_uuid (provider ft) (provider_pos ft) = Some (u, p)"
    by (cases "generate_uuid (provider ft) (provider_pos ft)") auto
  then show ?thesis by (simp add: createEntry_def Let_def)
qed

lemma pruneEntries_inv:
  assumes inv: "ft_inv ft" and p: "pruneEntries s ft = Returns () ft'"
  shows "ft_inv ft'"
proof -
  let ?t = "filter (\<lambda>e. \<not> by_seqno e > s) (table ft)"
  from p have ne: "\<not> length (table ft) - length (filter (\<lambda>e. by_seqno e > s) (table ft)) < 1"
    and t: "table ft' = ?t" and m: "max_entries ft' = max_entries ft"
    by (auto simp: pruneEntries_def Let_def cacheTableJSON_def split: if_splits)
  have "length (table ft) = length (filter (\<lambda>e. by_seqno e > s) (table ft)) + length ?t"
    by (rule sum_length_filter_compl[symmetric])
  with ne have "?t \<noteq> []" by auto
  moreover have "uuids_nonzero ?t" using inv by (auto simp: ft_inv_def uuids_nonzero_def list_all_iff)
  moreover have "seqnos_nonincreasing ?t" using inv
    by (auto simp: ft_inv_def seqnos_nonincreasing_def sorted_wrt_filter)
  moreover have "length ?t \<le> max_entries ft" using inv
    by (auto simp: ft_inv_def intro: le_trans[OF length_filter_le])
  ultimately show ?thesis by (simp add: ft_inv_def t m)
qed

lemma pruneEntries_Throws:
  "pruneEntries s ft = Throws e ft' \<Longrightarrow> e = invalid_argument \<and> ft' = ft"
  by (auto simp: pruneEntries_def Let_def split: if_splits)

lemma pruneEntries_fails_iff:
  "(\<exists>e ft'. pruneEntries s ft = Throws e ft') \<longleftrightarrow>
     (s = 0 \<or> filter (\<lambda>e. \<not> by_seqno e > s) (table ft) = [])"
proof -
  have "length (table ft) = length (filter (\<lambda>e. by_seqno e > s) (table ft))
          + length (filter (\<lambda>e. \<not> by_seqno e > s) (table ft))"
    by (rule sum_length_filter_compl[symmetric])
  then show ?thesis
    by (auto simp: pruneEntries_def Let_def split: if_splits)
qed

lemma buffer_records_append:
  "16 dvd length xs \<Longrightarrow> buffer_records (xs @ ys) = buffer_records xs @ buffer_records ys"
proof (induction xs rule: buffer_records.induct)
  case (1 bs)
  show ?case
  proof (cases "length bs < 16")
    case True
    with 1(2) have "bs = []" using dvd_imp_le[of 16 "length bs"] by auto
    then show ?thesis by (simp add: buffer_records.simps[of "[]"])
  next
    case False
    then have d: "16 dvd length (drop 16 bs)" using 1(2) by (simp add: dvd_diff_nat)
    have "buffer_records (bs @ ys) =
            \<lparr>vb_uuid = be64 (take 8 bs), by_seqno = be64 (take 8 (drop 8 bs))\<rparr>
              # buffer_records (drop 16 bs @ ys)"
      using False by (subst buffer_records.simps) simp
    also have "buffer_records (drop 16 bs @ ys) = buffer_records (drop 16 bs) @ buffer_records ys"
      using 1(1)[OF False d] .
    finally show ?thesis using False by (simp add: buffer_records.simps[of bs])
  qed
qed

lemma buffer_records_single:
  "length bs = 16 \<Longrightarrow>
     buffer_records bs = [\<lparr>vb_uuid = be64 (take 8 bs), by_seqno = be64 (take 8 (drop 8 bs))\<rparr>]"
  by (simp add: buffer_records.simps[of bs] buffer_records.simps[of "[]"])

lemma buffer_records_chunk:
  assumes "16 \<le> n" "n \<le> length bytes"
  shows "buffer_records (take 16 (drop (n - 16) bytes)) = [read_entry bytes n]"
proof -
  let ?c = "take 16 (drop (n - 16) bytes)"
  have len: "length ?c = 16" using assms by simp
  have u: "take 8 ?c = take 8 (drop (n - 16) bytes)" by simp
  have "drop 8 ?c = take 8 (drop 8 (drop (n - 16) bytes))" by (simp add: drop_take)
  also have "drop 8 (drop (n - 16) bytes) = drop (n - 8) bytes" using assms(1) by simp
  finally have v: "take 8 (drop 8 ?c) = take 8 (drop (n - 8) bytes)" by simp
  show ?thesis
    unfolding buffer_records_single[OF len] u v by (simp add: read_entry_def)
qed

lemma buffer_records_snoc:
  assumes "16 \<le> n" "16 dvd n" "n \<le> length bytes"
  shows "buffer_records (take n bytes) = buffer_records (take (n - 16) bytes) @ [read_entry bytes n]"
proof -
  have d: "16 dvd n - 16" using assms by (simp add: dvd_diff_nat)
  have "n = (n - 16) + 16" using assms(1) by simp
  then have "take n bytes = take (n - 16 + 16) bytes" by simp
  also have "\<dots> = take (n - 16) bytes @ take 16 (drop (n - 16) bytes)"
    by (rule take_add)
  finally have split: "take n bytes = take (n - 16) bytes @ take 16 (drop (n - 16) bytes)" .
  have len: "length (take (n - 16) bytes) = n - 16" using assms by simp
  have "buffer_records (take n bytes)
          = buffer_records (take (n - 16) bytes) @ buffer_records (take 16 (drop (n - 16) bytes))"
    unfolding split using d len by (simp add: buffer_records_append)
  also have "buffer_records (take 16 (drop (n - 16) bytes)) = [read_entry bytes n]"
    using assms(1,3) by (rule buffer_records_chunk)
  finally show ?thesis .
qed

lemma replace_loop_records:
  "16 dvd n \<Longrightarrow> n \<le> length bytes \<Longrightarrow>
     replace_loop bytes n t = buffer_records (take n bytes) @ t"
proof (induction bytes n t rule: replace_loop.induct)
  case (1 bytes n t)
  show ?case
  proof (cases "n = 0")
    case True
    then show ?thesis
      by (subst replace_loop.simps) (simp add: buffer_records.simps[of "[]"])
  next
    case False
    with 1(2) have n16: "16 \<le> n" by (simp add: dvd_imp_le)
    then have d: "16 dvd n - 16" using 1(2) by (simp add: dvd_diff_nat)
    have step: "replace_loop bytes n t = replace_loop bytes (n - 16) (read_entry bytes n # t)"
      using False n16 by (subst replace_loop.simps) simp
    have ih: "replace_loop bytes (n - 16) (read_entry bytes n # t)
                = buffer_records (take (n - 16) bytes) @ read_entry bytes n # t"
      using 1(1)[OF _ n16 d] False 1(3) by simp
    show ?thesis
      unfolding step ih buffer_records_snoc[OF n16 1(2) 1(3)] by simp
  qed
qed

lemma replace_loop_nonempty: "0 < n \<Longrightarrow> 16 dvd n \<Longrightarrow> replace_loop bytes n t \<noteq> []"
proof (induction bytes n t rule: replace_loop.induct)
  case (1 bytes n t)
  from 1(2,3) have n16: "16 \<le> n" by (simp add: dvd_imp_le)
  then have d: "16 dvd n - 16" using 1(3) by (simp add: dvd_diff_nat)
  have step: "replace_loop bytes n t = replace_loop bytes (n - 16) (read_entry bytes n # t)"
    using 1(2) n16 by (subst replace_loop.simps) simp
  show ?case
  proof (cases "n - 16 = 0")
    case True
    then show ?thesis unfolding step by (simp add: replace_loop.simps[of bytes 0])
  next
    case False
    then show ?thesis unfolding step using 1(1)[OF 1(2) n16 _ d] by simp
  qed
qed

lemma word32_mod16: "(len :: 32 word) mod 16 = 0 \<longleftrightarrow> 16 dvd unat len"
proof -
  have "len mod 16 = 0 \<longleftrightarrow> unat (len mod 16) = 0" by (simp add: unat_eq_zero)
  also have "unat (len mod 16) = unat len mod 16" by (simp add: unat_mod)
  finally show ?thesis by (simp add: dvd_eq_mod_eq_0)
qed

lemma sorted_last_le:
  "seqnos_nonincreasing kept \<Longrightarrow> x \<in> set kept \<Longrightarrow> by_seqno (last kept) \<le> by_seqno x"
  by (induction kept) (auto simp: seqnos_nonincreasing_def)

lemma sanitize_loop_inv:
  "uuids_nonzero kept \<Longrightarrow> seqnos_nonincreasing kept \<Longrightarrow>
     uuids_nonzero (sanitize_loop kept rest) \<and> seqnos_nonincreasing (sanitize_loop kept rest)"
proof (induction rest arbitrary: kept)
  case Nil
  then show ?case by simp
next
  case (Cons e rest)
  show ?case
  proof (cases "vb_uuid e = 0 \<or> (kept \<noteq> [] \<and> by_seqno e > by_seqno (last kept))")
    case True
    then show ?thesis using Cons by auto
  next
    case False
    then have nz: "uuids_nonzero (kept @ [e])" using Cons.prems(1) by (simp add: uuids_nonzero_def)
    have "seqnos_nonincreasing (kept @ [e])"
    proof (cases "kept = []")
      case True
      then show ?thesis by (simp add: seqnos_nonincreasing_def)
    next
      case ne: False
      with False have le: "by_seqno e \<le> by_seqno (last kept)" by (simp add: not_less)
      have "\<forall>x\<in>set kept. by_seqno e \<le> by_seqno x"
        using sorted_last_le[OF Cons.prems(2)] le by (meson order_trans)
      then show ?thesis using Cons.prems(2)
        by (simp add: seqnos_nonincreasing_def sorted_wrt_append)
    qed
    from Cons.IH[OF nz this] False show ?thesis by auto
  qed
qed

lemma sanitize_inv:
  assumes pos: "0 < max_entries ft" and s: "sanitizeFailoverTable hs ft = Some ft'"
  shows "table ft' \<noteq> [] \<and> uuids_nonzero (table ft') \<and> seqnos_nonincreasing (table ft')"
proof (cases "sanitize_loop [] (table ft) = []")
  case True
  let ?ft1 = "ft\<lparr>table := [],
                 erroneousEntriesErased := erroneousEntriesErased ft + (length (table ft) - 0)\<rparr>"
  from s True have c: "createEntry hs ?ft1 = Some ft'"
    by (simp add: sanitizeFailoverTable_def Let_def)
  from createEntry_table[OF c] obtain u where "u \<noteq> 0"
    and "table ft' = take (max_entries ft) [\<lparr>vb_uuid = u, by_seqno = hs\<rparr>]" by auto
  then show ?thesis using pos
    by (cases "max_entries ft") (auto simp: uuids_nonzero_def seqnos_nonincreasing_def)
next
  case False
  with s have t: "table ft' = sanitize_loop [] (table ft)"
    by (auto simp: sanitizeFailoverTable_def Let_def cacheTableJSON_def split: if_splits)
  have "uuids_nonzero []" "seqnos_nonincreasing []"
    by (simp_all add: uuids_nonzero_def seqnos_nonincreasing_def)
  from sanitize_loop_inv[OF this, of "table ft"] False t show ?thesis by simp
qed

lemma sanitize_loop_length:
  "length (sanitize_loop kept rest) \<le> length kept + length rest"
proof (induction rest arbitrary: kept)
  case Nil
  then show ?case by simp
next
  case (Cons e rest)
  have "length (sanitize_loop kept rest) \<le> length kept + length rest"
    and "length (sanitize_loop (kept @ [e]) rest) \<le> length (kept @ [e]) + length rest"
    by (rule Cons.IH)+
  then show ?case by auto
qed

lemma sanitize_keeps_cap:
  assumes pos: "0 < max_entries ft" and le: "length (table ft) \<le> max_entries ft"
    and s: "sanitizeFailoverTable hs ft = Some ft'"
  shows "length (table ft') \<le> max_entries ft'"
proof (cases "sanitize_loop [] (table ft) = []")
  case True
  let ?ft1 = "ft\<lparr>table := [],
                 erroneousEntriesErased := erroneousEntriesErased ft + (length (table ft) - 0)\<rparr>"
  from s True have c: "createEntry hs ?ft1 = Some ft'"
    by (simp add: sanitizeFailoverTable_def Let_def)
  from createEntry_table[OF c] show ?thesis by auto
next
  case False
  with s have t: "table ft' = sanitize_loop [] (table ft)"
    and m: "max_entries ft' = max_entries ft"
    by (auto simp: sanitizeFailoverTable_def Let_def cacheTableJSON_def split: if_splits)
  from sanitize_loop_length[of "[]" "table ft"] le show ?thesis unfolding t m by simp
qed

lemma sanitize_returns:
  assumes "drop_bit 16 (provider ft (provider_pos ft + k)) \<noteq> 0"
  shows "\<exists>ft'. sanitizeFailoverTable hs ft = Some ft'"
proof (cases "sanitize_loop [] (table ft) = []")
  case True
  let ?ft1 = "ft\<lparr>table := [],
                 erroneousEntriesErased := erroneousEntriesErased ft + (length (table ft) - 0)\<rparr>"
  have "drop_bit 16 (provider ?ft1 (provider_pos ?ft1 + k)) \<noteq> 0" using assms by simp
  from createEntry_returns[OF this, of hs] True show ?thesis
    by (simp add: sanitizeFailoverTable_def Let_def)
next
  case False
  then show ?thesis by (simp add: sanitizeFailoverTable_def Let_def)
qed

lemma FailoverTable_new_inv:
  assumes "0 < capacity" and "FailoverTable_new capacity prov dmp = Some ft"
  shows "ft_inv ft"
proof -
  from assms(2) obtain ft0 where c: "createEntry 0 (FailoverTable_init capacity prov dmp) = Some ft0"
    and ft: "ft = cacheTableJSON ft0"
    by (auto simp: FailoverTable_new_def)
  have "ft_inv ft0"
    by (rule createEntry_inv[OF _ _ _ c])
       (simp_all add: FailoverTable_init_def uuids_nonzero_def seqnos_nonincreasing_def assms(1))
  then show ?thesis unfolding ft by (simp add: ft_inv_def cacheTableJSON_def)
qed

lemma loadFromJSON_False: "loadFromJSON j ft = (False, ft') \<Longrightarrow> ft' = ft"
  by (auto simp: loadFromJSON_def split: json.splits option.splits if_splits)

lemma loadFromJSON_True: "loadFromJSON j ft = (True, ft') \<Longrightarrow> table ft' \<noteq> []"
  by (auto simp: loadFromJSON_def split: json.splits option.splits if_splits)

lemma loadFromJSON_string_False:
  assumes "loadFromJSON_string js parsed ft = (False, ft')"
  shows "ft' = (case parsed of None \<Rightarrow> ft | Some p \<Rightarrow> ft\<lparr>cachedTableJSON := js\<rparr>)"
proof (cases parsed)
  case None
  with assms show ?thesis by (simp add: loadFromJSON_string_def)
next
  case (Some p)
  obtain r f where l: "loadFromJSON p ft = (r, f)" by (cases "loadFromJSON p ft")
  with assms Some have "r = False" and f': "ft' = f\<lparr>cachedTableJSON := js\<rparr>"
    by (simp_all add: loadFromJSON_string_def)
  with l loadFromJSON_False[of p ft f] have "f = ft" by simp
  with f' Some show ?thesis by simp
qed

lemma buffer_records_hd:
  "16 \<le> n \<Longrightarrow> n \<le> length bytes \<Longrightarrow> hd (buffer_records (take n bytes)) = read_entry bytes 16"
  by (subst buffer_records.simps) (simp add: read_entry_def min_def take_drop)

lemma buffer_records_length:
  "16 dvd length bs \<Longrightarrow> length (buffer_records bs) = length bs div 16"
proof (induction bs rule: buffer_records.induct)
  case (1 bs)
  show ?case
  proof (cases "length bs < 16")
    case True
    then show ?thesis by (simp add: buffer_records.simps[of bs])
  next
    case False
    then have d: "16 dvd length (drop 16 bs)" using 1(2) by (simp add: dvd_diff_nat)
    have "length (buffer_records bs) = Suc (length (buffer_records (drop 16 bs)))"
      using False by (simp add: buffer_records.simps[of bs])
    also have "\<dots> = Suc ((length bs - 16) div 16)" using 1(1)[OF False d] by simp
    also have "\<dots> = length bs div 16" using False by (simp add: le_div_geq not_less)
    finally show ?thesis .
  qed
qed

lemma removeLatestEntry_inv:
  assumes "ft_inv ft"
  shows "uuids_nonzero (table (removeLatestEntry ft))
       \<and> seqnos_nonincreasing (table (removeLatestEntry ft))
       \<and> length (table (removeLatestEntry ft)) \<le> max_entries (removeLatestEntry ft)
       \<and> (table (removeLatestEntry ft) \<noteq> [] \<longleftrightarrow> 2 \<le> length (table ft))"
proof (cases "table ft")
  case Nil
  with assms show ?thesis by (simp add: ft_inv_def)
next
  case (Cons e t)
  with assms show ?thesis
    by (cases t) (auto simp: ft_inv_def removeLatestEntry_def cacheTableJSON_def
                     uuids_nonzero_def seqnos_nonincreasing_def)
qed

lemma replaceFailoverLog_nonempty:
  assumes "replaceFailoverLog bytes len ft = Returns () ft'"
  shows "table ft' \<noteq> []"
proof -
  from assms have "len mod 16 = 0" "len \<noteq> 0"
    and t: "table ft' = replace_loop bytes (unat len) []"
    by (auto simp: replaceFailoverLog_def Let_def cacheTableJSON_def split: if_splits)
  then have "16 dvd unat len" "0 < unat len" by (simp_all add: word32_mod16 unat_gt_0)
  then show ?thesis unfolding t by (intro replace_loop_nonempty)
qed

lemma generate_uuid_counter_0: "generate_uuid counter_provider 0 = Some (1, 2)"
  apply (subst generate_uuid.simps)
  apply (simp add: counter_provider_def)
  apply (subst generate_uuid.simps)
  apply (simp add: counter_provider_def)
  done

lemma generate_uuid_counter_2: "generate_uuid counter_provider 2 = Some (2, 3)"
  by (subst generate_uuid.simps) (simp add: counter_provider_def)

section \<open>Failover table: claims\<close>

text \<open>
  Claim C3, as the code decides it. For the table \<open>[{uuid 7, seqno 200}, {uuid 3, seqno 100}]\<close>
  and the request \<open>needsRollback(150, 200, 3, 130, 180, 0, true, none)\<close>, the walk finds
  branch 3 and takes \<open>upper\<close> from the next newer entry, so \<open>upper = 200\<close>; since
  \<open>snapEnd = 180 \<le> 200\<close> the answer is "no rollback", with \<open>*rollback_seqno = 0\<close>.
\<close>

theorem needsRollback_scenario:
  "find_upper 3 200 (rev (table two_branches)) = Some 200 \<and>
   needsRollback 150 200 3 130 180 0 True None two_branches = (False, [], Some 0)"
  by (simp add: needsRollback_def two_branches_def adjustSnapshotRange_def)

text \<open>
  The theorem read at its components: the call reports no rollback, gives no reason and
  leaves 0 in \<open>*rollback_seqno\<close>.
\<close>

theorem needsRollback_scenario_witness:
  "fst (needsRollback 150 200 3 130 180 0 True None two_branches) = False
   \<and> fst (snd (needsRollback 150 200 3 130 180 0 True None two_branches)) = []
   \<and> snd (snd (needsRollback 150 200 3 130 180 0 True None two_branches)) = Some 0"
  using needsRollback_scenario by simp

text \<open>
  Claim C3 as stated (\<open>upper = 100\<close> and a rollback to seqno 100) does not hold of the
  code: \<open>upper\<close> is not 100 and the call does not ask for a rollback.
\<close>

theorem needsRollback_scenario_counterexample:
  "find_upper 3 200 (rev (table two_branches)) \<noteq> Some 100 \<and>
   needsRollback 150 200 3 130 180 0 True None two_branches
     \<noteq> (True, ''consumer ahead of producer - producer upper at 100'', Some 100) \<and>
   \<not> fst (needsRollback 150 200 3 130 180 0 True None two_branches)"
  by (simp add: needsRollback_def two_branches_def adjustSnapshotRange_def)

text \<open>
  Claim C4, as the code decides it. For a length that is a nonzero multiple of 16 (and a
  buffer that holds that many bytes) \<open>replaceFailoverLog\<close> replaces the table by the
  records of the buffer in buffer order, one entry per 16-byte record: the front of the
  table is the first record of the buffer (bytes 0 to 15) and its back is the last record.
  For a length that is zero or not a multiple of 16 it throws \<open>invalid_argument\<close> and
  changes nothing.
\<close>

theorem replaceFailoverLog_buffer_order:
  "(len \<noteq> 0 \<and> len mod 16 = 0 \<and> unat len \<le> length bytes \<longrightarrow>
      replaceFailoverLog bytes len ft =
        Returns () (cacheTableJSON
          (ft\<lparr>table := buffer_records (take (unat len) bytes),
              latest_uuid := vb_uuid (read_entry bytes 16)\<rparr>))
      \<and> hd (buffer_records (take (unat len) bytes)) = read_entry bytes 16
      \<and> last (buffer_records (take (unat len) bytes)) = read_entry bytes (unat len)
      \<and> length (buffer_records (take (unat len) bytes)) = unat len div 16)
   \<and> (len = 0 \<or> len mod 16 \<noteq> 0 \<longrightarrow>
        replaceFailoverLog bytes len ft = Throws invalid_argument ft)"
proof (intro conjI impI)
  assume a: "len \<noteq> 0 \<and> len mod 16 = 0 \<and> unat len \<le> length bytes"
  then have d: "16 dvd unat len" and pos: "0 < unat len" and le: "unat len \<le> length bytes"
    by (simp_all add: word32_mod16 unat_gt_0)
  then have n16: "16 \<le> unat len" by (simp add: dvd_imp_le)
  show h: "hd (buffer_records (take (unat len) bytes)) = read_entry bytes 16"
    using n16 le by (rule buffer_records_hd)
  show "last (buffer_records (take (unat len) bytes)) = read_entry bytes (unat len)"
    by (simp add: buffer_records_snoc[OF n16 d le])
  show "replaceFailoverLog bytes len ft =
        Returns () (cacheTableJSON
          (ft\<lparr>table := buffer_records (take (unat len) bytes),
              latest_uuid := vb_uuid (read_entry bytes 16)\<rparr>))"
    using a by (simp add: replaceFailoverLog_def Let_def replace_loop_records[OF d le] h)
  show "length (buffer_records (take (unat len) bytes)) = unat len div 16"
    using d le by (simp add: buffer_records_length)
next
  assume "len = 0 \<or> len mod 16 \<noteq> 0"
  then have c: "len mod 16 \<noteq> 0 \<or> len = 0"
    by (elim disjE) (rule disjI2, assumption, rule disjI1, assumption)
  show "replaceFailoverLog bytes len ft = Throws invalid_argument ft"
    by (simp only: replaceFailoverLog_def c if_True)
qed

text \<open>
  The theorem at a buffer of two records and at the lengths 32 and 24: the table
  becomes \<open>[(1, 2), (3, 260)]\<close>, and length 24 is refused.
\<close>

theorem replaceFailoverLog_buffer_order_witness:
  "(32 :: 32 word) \<noteq> 0 \<and> (32 :: 32 word) mod 16 = 0
   \<and> unat (32 :: 32 word) \<le> length two_records
   \<and> replaceFailoverLog two_records 32 fresh_table =
        Returns () (cacheTableJSON
          (fresh_table\<lparr>table := buffer_records (take (unat (32 :: 32 word)) two_records),
                       latest_uuid := vb_uuid (read_entry two_records 16)\<rparr>))
   \<and> buffer_records (take (unat (32 :: 32 word)) two_records)
        = [\<lparr>vb_uuid = 1, by_seqno = 2\<rparr>, \<lparr>vb_uuid = 3, by_seqno = 260\<rparr>]
   \<and> read_entry two_records 16 = \<lparr>vb_uuid = 1, by_seqno = 2\<rparr>
   \<and> read_entry two_records (unat (32 :: 32 word)) = \<lparr>vb_uuid = 3, by_seqno = 260\<rparr>
   \<and> (24 :: 32 word) mod 16 \<noteq> 0
   \<and> replaceFailoverLog two_records 24 fresh_table = Throws invalid_argument fresh_table"
proof -
  have h: "(32 :: 32 word) \<noteq> 0 \<and> (32 :: 32 word) mod 16 = 0
             \<and> unat (32 :: 32 word) \<le> length two_records"
    by (simp add: two_records_def)
  have h': "(24 :: 32 word) = 0 \<or> (24 :: 32 word) mod 16 \<noteq> 0" by simp
  have t: "take (unat (32 :: 32 word)) two_records = two_records"
    by (simp add: two_records_def)
  have r: "buffer_records (take (unat (32 :: 32 word)) two_records)
             = [\<lparr>vb_uuid = 1, by_seqno = 2\<rparr>, \<lparr>vb_uuid = 3, by_seqno = 260\<rparr>]"
    unfolding t
    apply (subst buffer_records.simps)
    apply (simp add: two_records_def be64_def)
    apply (subst buffer_records.simps)
    apply (simp add: be64_def)
    apply (subst buffer_records.simps)
    apply simp
    done
  have e: "read_entry two_records 16 = \<lparr>vb_uuid = 1, by_seqno = 2\<rparr>"
          "read_entry two_records (unat (32 :: 32 word)) = \<lparr>vb_uuid = 3, by_seqno = 260\<rparr>"
    by (simp_all add: two_records_def read_entry_def be64_def)
  from replaceFailoverLog_buffer_order[of 32 two_records fresh_table] h
  have a: "replaceFailoverLog two_records 32 fresh_table =
        Returns () (cacheTableJSON
          (fresh_table\<lparr>table := buffer_records (take (unat (32 :: 32 word)) two_records),
                       latest_uuid := vb_uuid (read_entry two_records 16)\<rparr>))"
    by blast
  from replaceFailoverLog_buffer_order[of 24 two_records fresh_table] h'
  have b: "replaceFailoverLog two_records 24 fresh_table = Throws invalid_argument fresh_table"
    by blast
  from h' have h'': "(24 :: 32 word) mod 16 \<noteq> 0" by simp
  show ?thesis using h a r e h'' b by blast
qed

text \<open>
  Claim C4 as stated (the front of the table is the last record of the buffer) does not
  hold of the code: for the two-record buffer the front is the first record, (1, 2), and
  not the last one, (3, 260).
\<close>

theorem replaceFailoverLog_head_counterexample:
  "replaceFailoverLog two_records 32 fresh_table =
     Returns () (cacheTableJSON
       (fresh_table\<lparr>table := [\<lparr>vb_uuid = 1, by_seqno = 2\<rparr>, \<lparr>vb_uuid = 3, by_seqno = 260\<rparr>],
                    latest_uuid := 1\<rparr>))
   \<and> hd [\<lparr>vb_uuid = 1, by_seqno = 2\<rparr>, \<lparr>vb_uuid = 3, by_seqno = 260\<rparr>]
       \<noteq> read_entry two_records 32"
  by (simp add: replaceFailoverLog_def two_records_def Let_def replace_loop.simps
        read_entry_def be64_def)

text \<open>
  Claim C5, as the code decides it. \<open>createEntry\<close>, on any table (the empty one
  included) with nonzero UUIDs, seqnos that do not increase from front to back and a
  capacity of at least one, leaves a nonempty table with nonzero UUIDs, seqnos that do
  not increase and at most \<open>max_entries\<close> entries; it returns as soon as the generator
  yields a value with a nonzero upper part; so the constructor of a table of capacity at
  least one establishes the four properties. A \<open>pruneEntries\<close> that returns keeps
  them. \<open>removeLatestEntry\<close> keeps the last three, and leaves the table nonempty
  exactly when it held two entries or more. \<open>replaceFailoverLog\<close> and
  \<open>loadFromJSON\<close>, when they succeed, leave a nonempty table and promise nothing
  else. \<open>sanitizeFailoverTable\<close> on a table of capacity at least one returns (the
  generator yielding such a value), and leaves a nonempty table with nonzero UUIDs and
  seqnos that do not increase, within the capacity if the table was.
\<close>

theorem failover_table_invariants:
  "(uuids_nonzero (table ft) \<and> seqnos_nonincreasing (table ft) \<and> 0 < max_entries ft
      \<and> createEntry h ft = Some ft1 \<longrightarrow> ft_inv ft1)
 \<and> (drop_bit 16 (provider ft (provider_pos ft + k)) \<noteq> 0 \<longrightarrow> (\<exists>ft'. createEntry h ft = Some ft'))
 \<and> (0 < capacity \<and> FailoverTable_new capacity prov dmp = Some fn \<longrightarrow> ft_inv fn)
 \<and> (ft_inv ft \<and> pruneEntries s ft = Returns () ft2 \<longrightarrow> ft_inv ft2)
 \<and> (ft_inv ft \<longrightarrow>
       uuids_nonzero (table (removeLatestEntry ft))
     \<and> seqnos_nonincreasing (table (removeLatestEntry ft))
     \<and> length (table (removeLatestEntry ft)) \<le> max_entries (removeLatestEntry ft)
     \<and> (table (removeLatestEntry ft) \<noteq> [] \<longleftrightarrow> 2 \<le> length (table ft)))
 \<and> (replaceFailoverLog bytes len fa = Returns () fa' \<longrightarrow> table fa' \<noteq> [])
 \<and> (loadFromJSON j fb = (True, fb') \<longrightarrow> table fb' \<noteq> [])
 \<and> (0 < max_entries fc \<and> drop_bit 16 (provider fc (provider_pos fc + k')) \<noteq> 0 \<longrightarrow>
       (\<exists>fc'. sanitizeFailoverTable hs fc = Some fc'))
 \<and> (0 < max_entries fc \<and> sanitizeFailoverTable hs fc = Some fc' \<longrightarrow>
       table fc' \<noteq> [] \<and> uuids_nonzero (table fc') \<and> seqnos_nonincreasing (table fc')
       \<and> (length (table fc) \<le> max_entries fc \<longrightarrow> length (table fc') \<le> max_entries fc'))"
proof -
  have 1: "uuids_nonzero (table ft) \<and> seqnos_nonincreasing (table ft) \<and> 0 < max_entries ft
      \<and> createEntry h ft = Some ft1 \<longrightarrow> ft_inv ft1"
    using createEntry_inv by blast
  have 2: "drop_bit 16 (provider ft (provider_pos ft + k)) \<noteq> 0
             \<longrightarrow> (\<exists>ft'. createEntry h ft = Some ft')"
    using createEntry_returns by (rule impI)
  have 3: "0 < capacity \<and> FailoverTable_new capacity prov dmp = Some fn \<longrightarrow> ft_inv fn"
    using FailoverTable_new_inv by blast
  have 4: "ft_inv ft \<and> pruneEntries s ft = Returns () ft2 \<longrightarrow> ft_inv ft2"
    using pruneEntries_inv by blast
  have 5: "ft_inv ft \<longrightarrow>
       uuids_nonzero (table (removeLatestEntry ft))
     \<and> seqnos_nonincreasing (table (removeLatestEntry ft))
     \<and> length (table (removeLatestEntry ft)) \<le> max_entries (removeLatestEntry ft)
     \<and> (table (removeLatestEntry ft) \<noteq> [] \<longleftrightarrow> 2 \<le> length (table ft))"
    using removeLatestEntry_inv[of ft] by (rule impI)
  have 6: "replaceFailoverLog bytes len fa = Returns () fa' \<longrightarrow> table fa' \<noteq> []"
    using replaceFailoverLog_nonempty by (rule impI)
  have 7: "loadFromJSON j fb = (True, fb') \<longrightarrow> table fb' \<noteq> []"
    using loadFromJSON_True by (rule impI)
  have 8: "0 < max_entries fc \<and> drop_bit 16 (provider fc (provider_pos fc + k')) \<noteq> 0 \<longrightarrow>
       (\<exists>fc'. sanitizeFailoverTable hs fc = Some fc')"
    using sanitize_returns[of fc k' hs] by blast
  have 9: "0 < max_entries fc \<and> sanitizeFailoverTable hs fc = Some fc' \<longrightarrow>
       table fc' \<noteq> [] \<and> uuids_nonzero (table fc') \<and> seqnos_nonincreasing (table fc')
       \<and> (length (table fc) \<le> max_entries fc \<longrightarrow> length (table fc') \<le> max_entries fc')"
    using sanitize_inv[of fc hs fc'] sanitize_keeps_cap[of fc hs fc'] by blast
  show ?thesis
    by (intro conjI) (rule 1, rule 2, rule 3, rule 4, rule 5, rule 6, rule 7, rule 8, rule 9)
qed

text \<open>
  The theorem at concrete tables: \<open>createEntry(300)\<close>, \<open>pruneEntries(150)\<close> and
  \<open>removeLatestEntry\<close> on the two-entry table, \<open>createEntry(0)\<close> on the empty table
  of the constructor, \<open>replaceFailoverLog\<close> of the two-record buffer, \<open>loadFromJSON\<close>
  of a one-element array, and \<open>sanitizeFailoverTable\<close> on a table with a zero UUID and
  an entry out of order, and on a table with zero UUIDs only, which it empties and
  refills with one new entry.
\<close>

theorem failover_table_invariants_witness:
  "ft_inv two_branches
 \<and> createEntry 300 two_branches =
      Some (cacheTableJSON (two_branches\<lparr>table :=
              [\<lparr>vb_uuid = 1, by_seqno = 300\<rparr>, \<lparr>vb_uuid = 7, by_seqno = 200\<rparr>,
               \<lparr>vb_uuid = 3, by_seqno = 100\<rparr>], latest_uuid := 1, provider_pos := 2\<rparr>))
 \<and> ft_inv (cacheTableJSON (two_branches\<lparr>table :=
              [\<lparr>vb_uuid = 1, by_seqno = 300\<rparr>, \<lparr>vb_uuid = 7, by_seqno = 200\<rparr>,
               \<lparr>vb_uuid = 3, by_seqno = 100\<rparr>], latest_uuid := 1, provider_pos := 2\<rparr>))
 \<and> drop_bit 16 (provider two_branches (provider_pos two_branches + 1)) \<noteq> 0
 \<and> (\<exists>ft'. createEntry 300 two_branches = Some ft')
 \<and> map_option entries (FailoverTable_new 25 counter_provider compact_dump) = Some [(1, 0)]
 \<and> (\<exists>fn. FailoverTable_new 25 counter_provider compact_dump = Some fn \<and> ft_inv fn)
 \<and> pruneEntries 150 two_branches
      = Returns () (cacheTableJSON (two_branches\<lparr>table := [\<lparr>vb_uuid = 3, by_seqno = 100\<rparr>],
                                               latest_uuid := 3\<rparr>))
 \<and> ft_inv (cacheTableJSON (two_branches\<lparr>table := [\<lparr>vb_uuid = 3, by_seqno = 100\<rparr>],
                                               latest_uuid := 3\<rparr>))
 \<and> uuids_nonzero (table (removeLatestEntry two_branches))
 \<and> seqnos_nonincreasing (table (removeLatestEntry two_branches))
 \<and> table (removeLatestEntry two_branches) \<noteq> []
 \<and> replaceFailoverLog two_records 32 fresh_table =
        Returns () (cacheTableJSON
          (fresh_table\<lparr>table := [\<lparr>vb_uuid = 1, by_seqno = 2\<rparr>, \<lparr>vb_uuid = 3, by_seqno = 260\<rparr>],
                       latest_uuid := 1\<rparr>))
 \<and> table (cacheTableJSON
          (fresh_table\<lparr>table := [\<lparr>vb_uuid = 1, by_seqno = 2\<rparr>, \<lparr>vb_uuid = 3, by_seqno = 260\<rparr>],
                       latest_uuid := 1\<rparr>)) \<noteq> []
 \<and> loadFromJSON (JArray [JObject [(''id'', JUnsigned 5), (''seq'', JUnsigned 9)]]) fresh_table
      = (True, fresh_table\<lparr>table := [\<lparr>vb_uuid = 5, by_seqno = 9\<rparr>], latest_uuid := 5\<rparr>)
 \<and> table (fresh_table\<lparr>table := [\<lparr>vb_uuid = 5, by_seqno = 9\<rparr>], latest_uuid := 5\<rparr>) \<noteq> []
 \<and> 0 < max_entries legacy_table
 \<and> sanitizeFailoverTable 60 legacy_table =
      Some (cacheTableJSON (legacy_table\<lparr>table :=
              [\<lparr>vb_uuid = 9, by_seqno = 40\<rparr>, \<lparr>vb_uuid = 6, by_seqno = 40\<rparr>],
              erroneousEntriesErased := 2\<rparr>))
 \<and> uuids_nonzero (table (cacheTableJSON (legacy_table\<lparr>table :=
              [\<lparr>vb_uuid = 9, by_seqno = 40\<rparr>, \<lparr>vb_uuid = 6, by_seqno = 40\<rparr>],
              erroneousEntriesErased := 2\<rparr>)))
 \<and> seqnos_nonincreasing (table (cacheTableJSON (legacy_table\<lparr>table :=
              [\<lparr>vb_uuid = 9, by_seqno = 40\<rparr>, \<lparr>vb_uuid = 6, by_seqno = 40\<rparr>],
              erroneousEntriesErased := 2\<rparr>)))
 \<and> length (table (cacheTableJSON (legacy_table\<lparr>table :=
              [\<lparr>vb_uuid = 9, by_seqno = 40\<rparr>, \<lparr>vb_uuid = 6, by_seqno = 40\<rparr>],
              erroneousEntriesErased := 2\<rparr>))) \<le> 25
 \<and> drop_bit 16 (provider zero_uuid_table (provider_pos zero_uuid_table + 1)) \<noteq> 0
 \<and> (\<exists>fc'. sanitizeFailoverTable 60 zero_uuid_table = Some fc')
 \<and> map_option entries (sanitizeFailoverTable 60 zero_uuid_table) = Some [(1, 60)]"
proof -
  let ?created = "cacheTableJSON (two_branches\<lparr>table :=
              [\<lparr>vb_uuid = 1, by_seqno = 300\<rparr>, \<lparr>vb_uuid = 7, by_seqno = 200\<rparr>,
               \<lparr>vb_uuid = 3, by_seqno = 100\<rparr>], latest_uuid := 1, provider_pos := 2\<rparr>)"
  let ?pruned = "cacheTableJSON (two_branches\<lparr>table := [\<lparr>vb_uuid = 3, by_seqno = 100\<rparr>],
                                               latest_uuid := 3\<rparr>)"
  let ?replaced = "cacheTableJSON
          (fresh_table\<lparr>table := [\<lparr>vb_uuid = 1, by_seqno = 2\<rparr>, \<lparr>vb_uuid = 3, by_seqno = 260\<rparr>],
                       latest_uuid := 1\<rparr>)"
  let ?loaded = "fresh_table\<lparr>table := [\<lparr>vb_uuid = 5, by_seqno = 9\<rparr>], latest_uuid := 5\<rparr>"
  let ?sane = "cacheTableJSON (legacy_table\<lparr>table :=
              [\<lparr>vb_uuid = 9, by_seqno = 40\<rparr>, \<lparr>vb_uuid = 6, by_seqno = 40\<rparr>],
              erroneousEntriesErased := 2\<rparr>)"
  let ?new = "cacheTableJSON (cacheTableJSON
                ((FailoverTable_init 25 counter_provider compact_dump)
                   \<lparr>table := [\<lparr>vb_uuid = 1, by_seqno = 0\<rparr>], latest_uuid := 1,
                    provider_pos := 2\<rparr>))"
  have i: "ft_inv two_branches"
    by (simp add: ft_inv_def two_branches_def uuids_nonzero_def seqnos_nonincreasing_def)
  then have i': "uuids_nonzero (table two_branches) \<and> seqnos_nonincreasing (table two_branches)
                  \<and> 0 < max_entries two_branches"
    by (simp add: ft_inv_def two_branches_def)
  have c: "createEntry 300 two_branches = Some ?created"
    by (simp add: createEntry_def generate_uuid_counter_0 two_branches_def Let_def
          cap_size_take cacheTableJSON_def)
  have g: "drop_bit 16 (provider two_branches (provider_pos two_branches + 1)) \<noteq> 0"
    by (simp add: two_branches_def counter_provider_def)
  have n: "FailoverTable_new 25 counter_provider compact_dump = Some ?new"
    by (simp add: FailoverTable_new_def FailoverTable_init_def createEntry_def
          generate_uuid_counter_0 Let_def cap_size_take)
  have ne: "map_option entries (FailoverTable_new 25 counter_provider compact_dump)
              = Some [(1, 0)]"
    unfolding n by (simp add: entries_def cacheTableJSON_def)
  have p: "pruneEntries 150 two_branches = Returns () ?pruned"
    by (simp add: pruneEntries_def two_branches_def Let_def)
  have r: "replaceFailoverLog two_records 32 fresh_table = Returns () ?replaced"
    by (simp add: replaceFailoverLog_def two_records_def Let_def replace_loop.simps
          read_entry_def be64_def)
  have l: "loadFromJSON (JArray [JObject [(''id'', JUnsigned 5), (''seq'', JUnsigned 9)]])
             fresh_table = (True, ?loaded)"
    by (simp add: loadFromJSON_def entry_of_json_def)
  have m: "0 < max_entries legacy_table" by (simp add: legacy_table_def)
  have ml: "length (table legacy_table) \<le> max_entries legacy_table"
    and ms: "max_entries ?sane = 25"
    by (simp_all add: legacy_table_def cacheTableJSON_def)
  have s: "sanitizeFailoverTable 60 legacy_table = Some ?sane"
    by (simp add: sanitizeFailoverTable_def legacy_table_def Let_def cacheTableJSON_def)
  have mz: "0 < max_entries zero_uuid_table" by (simp add: zero_uuid_table_def)
  have gz: "drop_bit 16 (provider zero_uuid_table (provider_pos zero_uuid_table + 1)) \<noteq> 0"
    by (simp add: zero_uuid_table_def counter_provider_def)
  have z: "map_option entries (sanitizeFailoverTable 60 zero_uuid_table) = Some [(1, 60)]"
    by (simp add: sanitizeFailoverTable_def zero_uuid_table_def Let_def createEntry_def
          generate_uuid_counter_0 cap_size_take cacheTableJSON_def entries_def)
  note t = failover_table_invariants[of two_branches 300 ?created 1 25 counter_provider
       compact_dump ?new 150 ?pruned
       two_records 32 fresh_table ?replaced
       "JArray [JObject [(''id'', JUnsigned 5), (''seq'', JUnsigned 9)]]" fresh_table ?loaded
       legacy_table 0 60 ?sane]
  note tz = failover_table_invariants[of two_branches 300 ?created 1 25 counter_provider
       compact_dump ?new 150 ?pruned
       two_records 32 fresh_table ?replaced
       "JArray [JObject [(''id'', JUnsigned 5), (''seq'', JUnsigned 9)]]" fresh_table ?loaded
       zero_uuid_table 1 60 ?sane]
  from t i' c have 1: "ft_inv ?created" by blast
  from t g have 2: "\<exists>ft'. createEntry 300 two_branches = Some ft'" by blast
  from t n have "ft_inv ?new" by simp
  with n have 3: "\<exists>fn. FailoverTable_new 25 counter_provider compact_dump = Some fn \<and> ft_inv fn"
    by blast
  from t i p have 4: "ft_inv ?pruned" by blast
  from t i have 5: "uuids_nonzero (table (removeLatestEntry two_branches))"
    and 6: "seqnos_nonincreasing (table (removeLatestEntry two_branches))"
    and 7: "table (removeLatestEntry two_branches) \<noteq> [] \<longleftrightarrow>
              2 \<le> length (table two_branches)"
    by blast+
  from 7 have 8: "table (removeLatestEntry two_branches) \<noteq> []"
    by (simp add: two_branches_def)
  from t r have 9: "table ?replaced \<noteq> []" by blast
  from t l have 10: "table ?loaded \<noteq> []" by blast
  from t m s ml have 11: "table ?sane \<noteq> [] \<and> uuids_nonzero (table ?sane)
                        \<and> seqnos_nonincreasing (table ?sane)
                        \<and> length (table ?sane) \<le> max_entries ?sane" by blast
  then have 12: "length (table ?sane) \<le> 25" unfolding ms by simp
  from tz mz gz have 13: "\<exists>fc'. sanitizeFailoverTable 60 zero_uuid_table = Some fc'" by blast
  show ?thesis using i c 1 g 2 ne 3 p 4 5 6 8 r 9 l 10 m s 11 12 gz 13 z by blast
qed

text \<open>
  Claim C5 as stated does not hold of the code. The table a new \<open>FailoverTable\<close> starts
  with (one entry at seqno 0) has all four properties, strict order included; yet
  \<open>removeLatestEntry\<close> leaves it empty, and \<open>createEntry(0)\<close> leaves two entries
  with the same seqno, which are not strictly decreasing. \<open>replaceFailoverLog\<close> and
  \<open>loadFromJSON\<close> install what they are given: the two-record buffer leaves seqnos
  that increase from front to back, and two entries in a table of capacity one; an
  element with \<open>id\<close> 0 leaves a zero UUID.
\<close>

theorem failover_table_invariants_counterexample:
  "map_option entries (FailoverTable_new 25 counter_provider compact_dump)
     = Some (entries fresh_table)
 \<and> table fresh_table \<noteq> [] \<and> uuids_nonzero (table fresh_table)
 \<and> seqnos_decreasing (table fresh_table) \<and> length (table fresh_table) \<le> max_entries fresh_table
 \<and> table (removeLatestEntry fresh_table) = []
 \<and> map_option entries (createEntry 0 fresh_table) = Some [(2, 0), (1, 0)]
 \<and> \<not> seqnos_decreasing [\<lparr>vb_uuid = 2, by_seqno = 0\<rparr>, \<lparr>vb_uuid = 1, by_seqno = 0\<rparr>]
 \<and> entries (outcome_state (replaceFailoverLog two_records 32 (fresh_table\<lparr>max_entries := 1\<rparr>)))
     = [(1, 2), (3, 260)]
 \<and> \<not> seqnos_nonincreasing [\<lparr>vb_uuid = 1, by_seqno = 2\<rparr>, \<lparr>vb_uuid = 3, by_seqno = 260\<rparr>]
 \<and> max_entries (outcome_state (replaceFailoverLog two_records 32 (fresh_table\<lparr>max_entries := 1\<rparr>)))
     = 1
 \<and> loadFromJSON (JArray [JObject [(''id'', JUnsigned 0), (''seq'', JUnsigned 9)]]) fresh_table
     = (True, fresh_table\<lparr>table := [\<lparr>vb_uuid = 0, by_seqno = 9\<rparr>], latest_uuid := 0\<rparr>)
 \<and> \<not> uuids_nonzero [\<lparr>vb_uuid = 0, by_seqno = 9\<rparr>]"
  by (simp add: FailoverTable_new_def FailoverTable_init_def createEntry_def
        generate_uuid_counter_0
        generate_uuid_counter_2 cap_size_take entries_def Let_def
        cacheTableJSON_def fresh_table_def uuids_nonzero_def seqnos_decreasing_def
        seqnos_nonincreasing_def removeLatestEntry_def
        replaceFailoverLog_def two_records_def replace_loop.simps read_entry_def be64_def
        loadFromJSON_def entry_of_json_def)

text \<open>
  Claim C9, as the code decides it. \<open>pruneEntries(0)\<close>, and a \<open>pruneEntries\<close> that
  would leave no entry, throw \<open>invalid_argument\<close> and change nothing; these are its
  only failures. A \<open>loadFromJSON\<close> of a JSON value that fails changes nothing. A
  \<open>loadFromJSON\<close> of a string that fails leaves every member but \<open>cachedTableJSON\<close>
  as it was; \<open>cachedTableJSON\<close> it leaves as it was when the string does not parse, and
  sets to the string when the string parses. Its one caller, the constructor from JSON,
  then throws \<open>invalid_argument\<close>, so that no table is constructed.
\<close>

theorem load_and_prune_failures:
  "(pruneEntries s ft = Throws e ft' \<longrightarrow> e = invalid_argument \<and> ft' = ft)
 \<and> ((\<exists>e ft'. pruneEntries s ft = Throws e ft') \<longleftrightarrow>
       (s = 0 \<or> filter (\<lambda>e. \<not> by_seqno e > s) (table ft) = []))
 \<and> (loadFromJSON j ft = (False, fj) \<longrightarrow> fj = ft)
 \<and> (loadFromJSON_string js parsed ft = (False, fs) \<longrightarrow>
       fs = (case parsed of None \<Rightarrow> ft | Some p \<Rightarrow> ft\<lparr>cachedTableJSON := js\<rparr>))
 \<and> (\<not> fst (loadFromJSON_string js parsed (FailoverTable_init capacity prov dmp)) \<longrightarrow>
       FailoverTable_from_JSON js parsed capacity highSeqno prov dmp
         = Some (Inl invalid_argument))"
proof -
  have 1: "pruneEntries s ft = Throws e ft' \<longrightarrow> e = invalid_argument \<and> ft' = ft"
    using pruneEntries_Throws by (rule impI)
  have 2: "(\<exists>e ft'. pruneEntries s ft = Throws e ft') \<longleftrightarrow>
       (s = 0 \<or> filter (\<lambda>e. \<not> by_seqno e > s) (table ft) = [])"
    by (rule pruneEntries_fails_iff)
  have 3: "loadFromJSON j ft = (False, fj) \<longrightarrow> fj = ft"
    using loadFromJSON_False by (rule impI)
  have 4: "loadFromJSON_string js parsed ft = (False, fs) \<longrightarrow>
       fs = (case parsed of None \<Rightarrow> ft | Some p \<Rightarrow> ft\<lparr>cachedTableJSON := js\<rparr>)"
    using loadFromJSON_string_False by (rule impI)
  have 5: "\<not> fst (loadFromJSON_string js parsed (FailoverTable_init capacity prov dmp)) \<longrightarrow>
       FailoverTable_from_JSON js parsed capacity highSeqno prov dmp
         = Some (Inl invalid_argument)"
    by (cases "loadFromJSON_string js parsed (FailoverTable_init capacity prov dmp)")
       (simp add: FailoverTable_from_JSON_def)
  show ?thesis by (intro conjI) (rule 1, rule 2, rule 3, rule 4, rule 5)
qed

text \<open>
  The theorem at concrete inputs: \<open>pruneEntries(0)\<close> and \<open>pruneEntries(50)\<close> on the
  two-entry table, whose seqnos are 200 and 100; a JSON object, which is not an array,
  given to both \<open>loadFromJSON\<close>s; a string that does not parse; and the constructor
  from the string \<open>{}\<close>.
\<close>

theorem load_and_prune_failures_witness:
  "pruneEntries 0 two_branches = Throws invalid_argument two_branches
 \<and> pruneEntries 50 two_branches = Throws invalid_argument two_branches
 \<and> filter (\<lambda>e. \<not> by_seqno e > 50) (table two_branches) = []
 \<and> loadFromJSON (JObject []) two_branches = (False, two_branches)
 \<and> loadFromJSON_string ''{}'' (Some (JObject [])) two_branches
     = (False, two_branches\<lparr>cachedTableJSON := ''{}''\<rparr>)
 \<and> loadFromJSON_string ''{'' None two_branches = (False, two_branches)
 \<and> FailoverTable_from_JSON ''{}'' (Some (JObject [])) 25 0 counter_provider compact_dump
     = Some (Inl invalid_argument)"
proof -
  note t = load_and_prune_failures
  have p0: "pruneEntries 0 two_branches = Throws invalid_argument two_branches"
    by (simp add: pruneEntries_def)
  have p50: "pruneEntries 50 two_branches = Throws invalid_argument two_branches"
    by (simp add: pruneEntries_def two_branches_def Let_def)
  from t[where s = 0 and ft = two_branches and e = invalid_argument and ft' = two_branches] p0
  have 1: "invalid_argument = invalid_argument \<and> two_branches = two_branches" by blast
  from t[where s = 50 and ft = two_branches] p50
  have 2: "filter (\<lambda>e. \<not> by_seqno e > 50) (table two_branches) = []" by auto
  have l: "fst (loadFromJSON (JObject []) two_branches) = False"
    by (simp add: loadFromJSON_def)
  with t[where j = "JObject []" and ft = two_branches
           and fj = "snd (loadFromJSON (JObject []) two_branches)"]
  have 3: "loadFromJSON (JObject []) two_branches = (False, two_branches)"
    by (cases "loadFromJSON (JObject []) two_branches") auto
  have ls: "fst (loadFromJSON_string ''{}'' (Some (JObject [])) two_branches) = False"
    by (simp add: loadFromJSON_string_def loadFromJSON_def)
  with t[where ft = two_branches and js = "''{}''" and parsed = "Some (JObject [])"
           and fs = "snd (loadFromJSON_string ''{}'' (Some (JObject [])) two_branches)"]
  have 4: "loadFromJSON_string ''{}'' (Some (JObject [])) two_branches
             = (False, two_branches\<lparr>cachedTableJSON := ''{}''\<rparr>)"
    by (cases "loadFromJSON_string ''{}'' (Some (JObject [])) two_branches") auto
  have ln: "fst (loadFromJSON_string ''{'' None two_branches) = False"
    by (simp add: loadFromJSON_string_def)
  with t[where ft = two_branches and js = "''{''" and parsed = None
           and fs = "snd (loadFromJSON_string ''{'' None two_branches)"]
  have 5: "loadFromJSON_string ''{'' None two_branches = (False, two_branches)"
    by (cases "loadFromJSON_string ''{'' None two_branches") auto
  have "\<not> fst (loadFromJSON_string ''{}'' (Some (JObject []))
                 (FailoverTable_init 25 counter_provider compact_dump))"
    by (simp add: loadFromJSON_string_def loadFromJSON_def)
  with t[where js = "''{}''" and parsed = "Some (JObject [])" and capacity = 25
           and prov = counter_provider and dmp = compact_dump and highSeqno = 0]
  have 6: "FailoverTable_from_JSON ''{}'' (Some (JObject [])) 25 0 counter_provider compact_dump
             = Some (Inl invalid_argument)" by blast
  from p0 p50 2 3 4 5 6 show ?thesis by simp
qed

text \<open>
  Claim C9 as stated does not hold of the code. In the constructor from JSON, the table
  is empty and \<open>cachedTableJSON\<close> is the empty string when \<open>loadFromJSON\<close> is called.
  The string \<open>{}\<close> parses to a JSON object, which is not an array: the load fails, and
  \<open>cachedTableJSON\<close> holds \<open>{}\<close> afterwards. On the table a new \<open>FailoverTable\<close>
  starts with, whose \<open>cachedTableJSON\<close> is the printed table, it does the same.
\<close>

theorem loadFromJSON_string_failure_counterexample:
  "cachedTableJSON (FailoverTable_init 25 counter_provider compact_dump) = []
 \<and> fst (loadFromJSON_string ''{}'' (Some (JObject []))
          (FailoverTable_init 25 counter_provider compact_dump)) = False
 \<and> cachedTableJSON (snd (loadFromJSON_string ''{}'' (Some (JObject []))
          (FailoverTable_init 25 counter_provider compact_dump))) = ''{}''
 \<and> cachedTableJSON fresh_table = compact_dump (table_json (table fresh_table))
 \<and> fst (loadFromJSON_string ''{}'' (Some (JObject [])) fresh_table) = False
 \<and> cachedTableJSON (snd (loadFromJSON_string ''{}'' (Some (JObject [])) fresh_table)) = ''{}''
 \<and> cachedTableJSON (snd (loadFromJSON_string ''{}'' (Some (JObject [])) fresh_table))
     \<noteq> cachedTableJSON fresh_table"
  by (simp add: FailoverTable_init_def loadFromJSON_string_def loadFromJSON_def
        fresh_table_def compact_dump_def table_json_def)

section \<open>Active durability monitor: lemmas\<close>

subsection \<open>What each step does to the positions and to the tracked list\<close>

lemma node_position_put_other:
  assumes "node_position node tracking s = Inr q"
  shows "node_position n t (put_position node tracking p s) =
           (if n = node \<and> t = tracking then Inr p else node_position n t s)"
  using assms
  by (cases tracking; cases t)
     (auto simp: node_position_def put_position_def split: option.splits)

lemma put_position_same:
  assumes "node_position node tracking s = Inr p"
  shows "put_position node tracking p s = s"
proof -
  from assms obtain chain np where c: "firstChain s = Some chain"
    and np: "positions chain node = Some np" and p: "pos_of tracking np = p"
    by (auto simp: node_position_def split: option.splits)
  have "set_pos tracking p np = np" using p by (cases tracking) auto
  then have "(positions chain)(node \<mapsto> set_pos tracking p np) = positions chain"
    using np by (simp add: fun_upd_idem)
  then show ?thesis using c np by (simp add: put_position_def)
qed

lemma firstChain_put:
  "firstChain (put_position node tracking p s) = None \<longleftrightarrow> firstChain s = None"
  by (auto simp: put_position_def split: option.splits)

lemma lastTrackedSeqno_put [simp]:
  "lastTrackedSeqno (put_position node tracking p s) = lastTrackedSeqno s"
  by (auto simp: put_position_def split: option.splits)

lemma ack_keeps:
  assumes "ack node tracking sw = Inr sw'"
  shows "item sw' = item sw" and "getBySeqno sw' = getBySeqno sw"
    and "expiryTime sw' = expiryTime sw" and "cookie sw' = cookie sw"
  using assms
  by (auto simp: ack_def getBySeqno_def split: option.splits Tracking.splits if_splits)

lemma getNodeNext_Inr:
  assumes "getNodeNext node tracking s = Inr x"
  shows "\<exists>pos. node_position node tracking s = Inr pos
           \<and> x = (if cursor_next (it pos) < length (trackedWrites s)
                    then Some (cursor_next (it pos)) else None)"
  using assms
  by (auto simp: getNodeNext_def cursor_next_def begin_it_def next_it_def
           split: sum.splits option.splits)

lemma getNodeNext_unacked:
  assumes "getNodeNext node tracking s = Inr (Some j)"
  shows "j < length (trackedWrites s)"
    and "unacked node tracking s = drop j (tracked_seqnos s)"
proof -
  from getNodeNext_Inr[OF assms] obtain pos
    where p: "node_position node tracking s = Inr pos"
      and j: "Some j = (if cursor_next (it pos) < length (trackedWrites s)
                        then Some (cursor_next (it pos)) else None)" by blast
  from j show "j < length (trackedWrites s)" by (auto split: if_splits)
  from j have "cursor_next (it pos) = j" by (auto split: if_splits)
  then show "unacked node tracking s = drop j (tracked_seqnos s)"
    using p by (simp add: unacked_def)
qed

lemma getNodeNext_None_unacked:
  assumes "getNodeNext node tracking s = Inr None"
  shows "unacked node tracking s = []"
proof -
  from getNodeNext_Inr[OF assms] obtain pos
    where p: "node_position node tracking s = Inr pos"
      and j: "None = (if cursor_next (it pos) < length (trackedWrites s)
                        then Some (cursor_next (it pos)) else None)" by blast
  from j have "length (trackedWrites s) \<le> cursor_next (it pos)" by (auto split: if_splits)
  then show ?thesis using p by (simp add: unacked_def tracked_seqnos_def)
qed

lemma advanceNodePosition_effect:
  assumes n: "getNodeNext node tracking s = Inr (Some j)"
    and a: "advanceNodePosition node tracking s = Returns u s1"
  shows "\<exists>pos sw'. node_position node tracking s = Inr pos
           \<and> ack node tracking (trackedWrites s ! j) = Inr sw'
           \<and> trackedWrites s1 = (trackedWrites s)[j := sw']
           \<and> lastTrackedSeqno s1 = lastTrackedSeqno s
           \<and> (\<forall>n t. node_position n t s1 =
                  (if n = node \<and> t = tracking
                   then Inr (pos\<lparr>it := Some j,
                                  lastWriteSeqno := getBySeqno (trackedWrites s ! j)\<rparr>)
                   else node_position n t s))"
proof -
  from n obtain pos where pos: "node_position node tracking s = Inr pos"
    and nx: "(case it pos of None \<Rightarrow> begin_it s | Some i \<Rightarrow> next_it s i) = Some j"
    by (auto simp: getNodeNext_def split: sum.splits)
  let ?pos1 = "pos\<lparr>it := Some j\<rparr>"
  let ?s1 = "put_position node tracking ?pos1 s"
  let ?sw = "trackedWrites s ! j"
  let ?pos2 = "?pos1\<lparr>lastWriteSeqno := getBySeqno ?sw\<rparr>"
  let ?s2 = "put_position node tracking ?pos2 ?s1"
  from a pos nx obtain sw' where ak: "ack node tracking ?sw = Inr sw'"
    and s1: "s1 = ?s2\<lparr>trackedWrites := (trackedWrites ?s2)[j := sw']\<rparr>"
    by (auto simp: advanceNodePosition_def Let_def split: sum.splits if_splits)
  have p1: "node_position node tracking ?s1 = Inr ?pos1"
    by (simp add: node_position_put_other[OF pos])
  have "\<forall>n t. node_position n t s1 =
                  (if n = node \<and> t = tracking then Inr ?pos2 else node_position n t s)"
    unfolding s1
    by (simp add: node_position_put_other[OF p1] node_position_put_other[OF pos])
  moreover have "trackedWrites s1 = (trackedWrites s)[j := sw']" unfolding s1 by simp
  moreover have "lastTrackedSeqno s1 = lastTrackedSeqno s" unfolding s1 by simp
  ultimately show ?thesis using pos ak by simp
qed

lemma removeSyncWrite_effect:
  assumes r: "removeSyncWrite (Some i) s = Returns removed s2"
  shows "removed = [trackedWrites s ! i]"
    and "trackedWrites s2 = take i (trackedWrites s) @ drop (Suc i) (trackedWrites s)"
    and "lastTrackedSeqno s2 = lastTrackedSeqno s"
    and "node_position n t s2 =
           (case node_position n t s of
              Inl e \<Rightarrow> Inl e
            | Inr p \<Rightarrow> Inr (p\<lparr>it := reposition i (if i = 0 then None else Some (i - 1))
                                        (it p)\<rparr>))"
proof -
  let ?prev = "if i = 0 then None else Some (i - 1)"
  from r obtain chain where c: "firstChain s = Some chain"
    by (auto simp: removeSyncWrite_def Let_def split: option.splits)
  from r c have s2: "s2 = s\<lparr>firstChain :=
                         Some (chain\<lparr>positions :=
                                 (\<lambda>node. map_option (reposition_node i ?prev)
                                                      (positions chain node))\<rparr>),
                       trackedWrites :=
                         take i (trackedWrites s) @ drop (Suc i) (trackedWrites s)\<rparr>"
    and rm: "removed = [trackedWrites s ! i]"
    by (auto simp: removeSyncWrite_def Let_def)
  show "removed = [trackedWrites s ! i]" by (rule rm)
  show "trackedWrites s2 = take i (trackedWrites s) @ drop (Suc i) (trackedWrites s)"
    unfolding s2 by simp
  show "lastTrackedSeqno s2 = lastTrackedSeqno s" unfolding s2 by simp
  show "node_position n t s2 =
           (case node_position n t s of
              Inl e \<Rightarrow> Inl e
            | Inr p \<Rightarrow> Inr (p\<lparr>it := reposition i ?prev (it p)\<rparr>))"
    unfolding s2 using c
    by (cases t) (auto simp: node_position_def reposition_node_def split: option.splits)
qed

lemma updateNodeAck_effect:
  assumes "updateNodeAck node tracking a s = Returns u s'"
  shows "\<exists>pos. node_position node tracking s = Inr pos \<and> lastAckSeqno pos \<le> a
           \<and> trackedWrites s' = trackedWrites s
           \<and> lastTrackedSeqno s' = lastTrackedSeqno s
           \<and> (\<forall>n t. node_position n t s' =
                  (if n = node \<and> t = tracking then Inr (pos\<lparr>lastAckSeqno := a\<rparr>)
                   else node_position n t s))"
proof -
  from assms obtain pos where pos: "node_position node tracking s = Inr pos"
    and le: "lastAckSeqno pos \<le> a"
    and s': "s' = put_position node tracking (pos\<lparr>lastAckSeqno := a\<rparr>) s"
    by (auto simp: updateNodeAck_def split: sum.splits if_splits)
  show ?thesis using pos le unfolding s'
    by (simp add: node_position_put_other[OF pos])
qed

lemma updateNodeAck_same:
  assumes "node_position node tracking s = Inr pos" and "lastAckSeqno pos = a"
  shows "updateNodeAck node tracking a s = Returns () s"
proof -
  have e: "pos\<lparr>lastAckSeqno := a\<rparr> = pos" using assms(2) by simp
  have "updateNodeAck node tracking a s =
          Returns () (put_position node tracking (pos\<lparr>lastAckSeqno := a\<rparr>) s)"
    using assms by (simp add: updateNodeAck_def)
  then show ?thesis unfolding e put_position_same[OF assms(1)] .
qed

subsection \<open>The seqnos a node has yet to acknowledge\<close>


lemma subseq_remove_nth: "subseq (take i xs @ drop (Suc i) xs) xs"
proof (cases "i < length xs")
  case True
  have "subseq (take i xs @ drop (Suc i) xs) (take i xs @ xs ! i # drop (Suc i) xs)"
    by (auto simp: subseq_append' intro: list_emb_Cons)
  then show ?thesis using True by (simp add: id_take_nth_drop[symmetric])
next
  case False
  then show ?thesis by simp
qed

lemma cursor_next_reposition:
  "cursor_next (reposition i (if i = 0 then None else Some (i - 1)) x) =
     (if cursor_next x \<le> i then cursor_next x else cursor_next x - 1)"
  by (cases x) (auto simp: cursor_next_def reposition_def)

lemma drop_remove_nth:
  assumes "i < length xs"
  shows "drop (if c \<le> i then c else c - 1) (take i xs @ drop (Suc i) xs) =
           (if c \<le> i then drop c (take i xs) @ drop (Suc i) xs else drop c xs)"
proof (cases "c \<le> i")
  case True
  then show ?thesis using assms by simp
next
  case False
  then have "drop (c - 1) (take i xs @ drop (Suc i) xs) = drop (c - 1 - i) (drop (Suc i) xs)"
    using assms by simp
  also have "\<dots> = drop c xs" using False by simp
  finally show ?thesis using False by simp
qed

lemma subseq_drop_remove_nth:
  assumes "i < length xs"
  shows "subseq (drop (if c \<le> i then c else c - 1) (take i xs @ drop (Suc i) xs)) (drop c xs)"
proof (cases "c \<le> i")
  case True
  have "drop c xs = drop c (take i xs @ xs ! i # drop (Suc i) xs)"
    using assms by (simp add: id_take_nth_drop[symmetric])
  also have "\<dots> = drop c (take i xs) @ xs ! i # drop (Suc i) xs"
    using True assms by simp
  finally have "drop c xs = drop c (take i xs) @ xs ! i # drop (Suc i) xs" .
  then show ?thesis unfolding drop_remove_nth[OF assms] using True
    by (auto simp: subseq_append' intro: list_emb_Cons)
next
  case False
  then show ?thesis unfolding drop_remove_nth[OF assms] by simp
qed

lemma advance_step:
  assumes n: "getNodeNext node tracking s = Inr (Some j)"
    and a: "advanceNodePosition node tracking s = Returns u s1"
  shows "tracked_seqnos s1 = tracked_seqnos s"
    and "length (trackedWrites s1) = length (trackedWrites s)"
    and "getBySeqno (trackedWrites s1 ! j) = getBySeqno (trackedWrites s ! j)"
    and "unacked node tracking s1 = drop (Suc j) (tracked_seqnos s)"
    and "\<not> (n = node \<and> t = tracking) \<Longrightarrow> node_position n t s1 = node_position n t s"
    and "map_sum id lastAckSeqno (node_position n t s1)
           = map_sum id lastAckSeqno (node_position n t s)"
    and "lastTrackedSeqno s1 = lastTrackedSeqno s"
    and "\<exists>p. node_position node tracking s1 = Inr p \<and> it p = Some j"
proof -
  from advanceNodePosition_effect[OF n a] obtain pos sw'
    where pos: "node_position node tracking s = Inr pos"
      and ak: "ack node tracking (trackedWrites s ! j) = Inr sw'"
      and tr: "trackedWrites s1 = (trackedWrites s)[j := sw']"
      and lt: "lastTrackedSeqno s1 = lastTrackedSeqno s"
      and np: "\<And>n t. node_position n t s1 =
                  (if n = node \<and> t = tracking
                   then Inr (pos\<lparr>it := Some j,
                                  lastWriteSeqno := getBySeqno (trackedWrites s ! j)\<rparr>)
                   else node_position n t s)"
    by blast
  from getNodeNext_unacked[OF n] have j: "j < length (trackedWrites s)" by simp
  have sq: "getBySeqno sw' = getBySeqno (trackedWrites s ! j)" using ack_keeps(2)[OF ak] .
  show ts: "tracked_seqnos s1 = tracked_seqnos s"
    unfolding tracked_seqnos_def tr map_update sq using j
    by (simp add: list_update_same_conv)
  show "length (trackedWrites s1) = length (trackedWrites s)" unfolding tr by simp
  show "getBySeqno (trackedWrites s1 ! j) = getBySeqno (trackedWrites s ! j)"
    unfolding tr using j sq by simp
  show "unacked node tracking s1 = drop (Suc j) (tracked_seqnos s)"
    by (simp add: unacked_def np ts cursor_next_def)
  show "node_position n t s1 = node_position n t s" if "\<not> (n = node \<and> t = tracking)"
    using that by (auto simp: np)
  show "map_sum id lastAckSeqno (node_position n t s1)
           = map_sum id lastAckSeqno (node_position n t s)"
    using pos by (auto simp: np)
  show "lastTrackedSeqno s1 = lastTrackedSeqno s" by (rule lt)
  show "\<exists>p. node_position node tracking s1 = Inr p \<and> it p = Some j" by (simp add: np)
qed

lemma remove_step:
  assumes r: "removeSyncWrite (Some i) s = Returns removed s2"
    and i: "i < length (trackedWrites s)"
  shows "removed = [trackedWrites s ! i]"
    and "tracked_seqnos s2 = take i (tracked_seqnos s) @ drop (Suc i) (tracked_seqnos s)"
    and "subseq (unacked n t s2) (unacked n t s)"
    and "node_position n t s = Inr p \<Longrightarrow> it p = Some i
           \<Longrightarrow> unacked n t s2 = drop (Suc i) (tracked_seqnos s)"
    and "map_sum id lastAckSeqno (node_position n t s2)
           = map_sum id lastAckSeqno (node_position n t s)"
    and "lastTrackedSeqno s2 = lastTrackedSeqno s"
proof -
  note e = removeSyncWrite_effect[OF r]
  let ?sq = "tracked_seqnos s"
  have li: "i < length ?sq" using i by (simp add: tracked_seqnos_def)
  show "removed = [trackedWrites s ! i]" by (rule e(1))
  show ts: "tracked_seqnos s2 = take i ?sq @ drop (Suc i) ?sq"
    by (simp add: tracked_seqnos_def e(2) take_map drop_map)
  show "subseq (unacked n t s2) (unacked n t s)"
  proof (cases "node_position n t s")
    case (Inl e')
    then show ?thesis by (simp add: unacked_def e(4))
  next
    case (Inr q)
    then show ?thesis
      using subseq_drop_remove_nth[OF li, of "cursor_next (it q)"]
      by (simp add: unacked_def e(4) ts cursor_next_reposition)
  qed
  show "unacked n t s2 = drop (Suc i) ?sq"
    if "node_position n t s = Inr p" "it p = Some i"
  proof -
    have c: "cursor_next (it p) = Suc i" using that by (simp add: cursor_next_def)
    have "unacked n t s2 =
            drop (if cursor_next (it p) \<le> i then cursor_next (it p)
                  else cursor_next (it p) - 1) (take i ?sq @ drop (Suc i) ?sq)"
      using that(1) by (simp add: unacked_def e(4) ts cursor_next_reposition)
    also have "\<dots> = drop (Suc i) ?sq" unfolding drop_remove_nth[OF li] c by simp
    finally show ?thesis .
  qed
  show "map_sum id lastAckSeqno (node_position n t s2)
           = map_sum id lastAckSeqno (node_position n t s)"
    by (cases "node_position n t s") (simp_all add: e(4))
  show "lastTrackedSeqno s2 = lastTrackedSeqno s" by (rule e(3))
qed

subsection \<open>One round of the loop of \<open>processSeqnoAck\<close>\<close>

lemma getNodeNext_defined:
  assumes "node_position node tracking s = Inr p"
  shows "\<exists>x. getNodeNext node tracking s = Inr x"
  using assms by (simp add: getNodeNext_def)

lemma unacked_Cons:
  assumes "getNodeNext node tracking s = Inr (Some j)"
  shows "unacked node tracking s =
           getBySeqno (trackedWrites s ! j) # drop (Suc j) (tracked_seqnos s)"
proof -
  from getNodeNext_unacked[OF assms]
  have j: "j < length (tracked_seqnos s)" and u: "unacked node tracking s = drop j (tracked_seqnos s)"
    by (simp_all add: tracked_seqnos_def)
  from j have "drop j (tracked_seqnos s) = tracked_seqnos s ! j # drop (Suc j) (tracked_seqnos s)"
    by (simp add: Cons_nth_drop_Suc)
  then show ?thesis using u j by (simp add: tracked_seqnos_def)
qed

lemma stopped_next:
  assumes "getNodeNext node tracking s = Inr x"
  shows "stopped node tracking a s \<longleftrightarrow>
           (case x of None \<Rightarrow> True | Some j \<Rightarrow> a < getBySeqno (trackedWrites s ! j))"
proof (cases x)
  case None
  then show ?thesis using getNodeNext_None_unacked[of node tracking s] assms
    by (simp add: stopped_def)
next
  case (Some j)
  then show ?thesis using unacked_Cons[of node tracking s j] assms
    by (simp add: stopped_def)
qed

lemma processSeqnoAck_loop_idle:
  assumes p: "node_position node tracking s = Inr p"
    and st: "stopped node tracking a s"
  shows "processSeqnoAck_loop node tracking a tc s = Returns tc s"
proof -
  from getNodeNext_defined[OF p] obtain x where x: "getNodeNext node tracking s = Inr x" ..
  show ?thesis
  proof (cases x)
    case None
    then show ?thesis using x by (subst processSeqnoAck_loop.simps) simp
  next
    case (Some j)
    with st stopped_next[OF x, of a] have "\<not> getBySeqno (trackedWrites s ! j) \<le> a" by simp
    then show ?thesis using x Some by (subst processSeqnoAck_loop.simps) simp
  qed
qed

lemma processSeqnoAck_loop_cases:
  assumes ret: "processSeqnoAck_loop node tracking a tc s = Returns tc' s'"
  obtains (stop) p where "tc' = tc" and "s' = s" and "stopped node tracking a s"
      and "node_position node tracking s = Inr p"
  | (keep) j u s1 where "getNodeNext node tracking s = Inr (Some j)"
      and "getBySeqno (trackedWrites s ! j) \<le> a"
      and "advanceNodePosition node tracking s = Returns u s1"
      and "processSeqnoAck_loop node tracking a tc s1 = Returns tc' s'"
      and "remaining node tracking s1 < remaining node tracking s"
  | (remove) j u s1 removed s2 where "getNodeNext node tracking s = Inr (Some j)"
      and "getBySeqno (trackedWrites s ! j) \<le> a"
      and "advanceNodePosition node tracking s = Returns u s1"
      and "removeSyncWrite (Some j) s1 = Returns removed s2"
      and "processSeqnoAck_loop node tracking a (tc @ removed) s2 = Returns tc' s'"
      and "remaining node tracking s2 < remaining node tracking s"
proof (cases "getNodeNext node tracking s")
  case (Inl e)
  with ret show ?thesis by (subst (asm) processSeqnoAck_loop.simps) simp
next
  case (Inr x)
  from getNodeNext_Inr[OF Inr] obtain p where p: "node_position node tracking s = Inr p"
    by blast
  show ?thesis
  proof (cases "stopped node tracking a s")
    case True
    from ret have "tc' = tc \<and> s' = s"
      unfolding processSeqnoAck_loop_idle[OF p True] by simp
    then show ?thesis using True p stop by blast
  next
    case False
    with stopped_next[OF Inr, of a] obtain j where j: "x = Some j"
      and le: "getBySeqno (trackedWrites s ! j) \<le> a"
      by (cases x) auto
    note n = Inr[unfolded j]
    from getNodeNext_Some[OF n] have jl: "j < length (trackedWrites s)"
      and rem: "remaining node tracking s = length (trackedWrites s) - j" by simp_all
    show ?thesis
    proof (cases "advanceNodePosition node tracking s")
      case (Throws e s1)
      with ret n le show ?thesis by (subst (asm) processSeqnoAck_loop.simps) simp
    next
      case (Returns u s1)
      from advanceNodePosition_Returns[OF n Returns] obtain q
        where q: "node_position node tracking s1 = Inr q" and iq: "it q = Some j"
          and len: "length (trackedWrites s1) = length (trackedWrites s)" by blast
      have rem1: "remaining node tracking s1 = length (trackedWrites s) - Suc j"
        by (simp add: remaining_def q iq len)
      show ?thesis
      proof (cases "isSatisfied (trackedWrites s1 ! j)")
        case (Inl e)
        with ret n le Returns q iq show ?thesis
          by (subst (asm) processSeqnoAck_loop.simps) simp
      next
        case sat: (Inr b)
        show ?thesis
        proof (cases b)
          case False
          with ret n le Returns q iq sat
          have "processSeqnoAck_loop node tracking a tc s1 = Returns tc' s'"
            by (subst (asm) processSeqnoAck_loop.simps) simp
          then show ?thesis using keep n le Returns rem rem1 jl by simp
        next
          case True
          show ?thesis
          proof (cases "removeSyncWrite (Some j) s1")
            case (Throws e s2)
            with ret n le Returns q iq sat True show ?thesis
              by (subst (asm) processSeqnoAck_loop.simps) simp
          next
            case r: (Returns removed s2)
            with ret n le Returns q iq sat True
            have l: "processSeqnoAck_loop node tracking a (tc @ removed) s2 = Returns tc' s'"
              by (subst (asm) processSeqnoAck_loop.simps) simp
            have "remaining node tracking s2 = length (trackedWrites s1) - Suc j"
              using removeSyncWrite_Returns(1)[OF q iq r] jl len by simp
            then have "remaining node tracking s2 < remaining node tracking s"
              using rem jl len by simp
            then show ?thesis using remove n le Returns r l by blast
          qed
        qed
      qed
    qed
  qed
qed

lemma processSeqnoAck_loop_rule:
  assumes ret: "processSeqnoAck_loop node tracking a tc s = Returns tc' s'"
    and stop: "\<And>tc s p. node_position node tracking s = Inr p \<Longrightarrow> stopped node tracking a s
                 \<Longrightarrow> R tc s tc s"
    and keep: "\<And>tc s j u s1 tc' s'.
                 getNodeNext node tracking s = Inr (Some j)
                 \<Longrightarrow> getBySeqno (trackedWrites s ! j) \<le> a
                 \<Longrightarrow> advanceNodePosition node tracking s = Returns u s1
                 \<Longrightarrow> R tc s1 tc' s' \<Longrightarrow> R tc s tc' s'"
    and remove: "\<And>tc s j u s1 removed s2 tc' s'.
                 getNodeNext node tracking s = Inr (Some j)
                 \<Longrightarrow> getBySeqno (trackedWrites s ! j) \<le> a
                 \<Longrightarrow> advanceNodePosition node tracking s = Returns u s1
                 \<Longrightarrow> removeSyncWrite (Some j) s1 = Returns removed s2
                 \<Longrightarrow> R (tc @ removed) s2 tc' s' \<Longrightarrow> R tc s tc' s'"
  shows "R tc s tc' s'"
  using ret
proof (induction "remaining node tracking s" arbitrary: tc s rule: less_induct)
  case less
  from less.prems show ?case
  proof (cases rule: processSeqnoAck_loop_cases)
    case (stop p)
    then show ?thesis using assms(2) by simp
  next
    case (keep j u s1)
    from less.hyps[OF keep(5) keep(4)] have "R tc s1 tc' s'" .
    then show ?thesis using assms(3)[OF keep(1,2,3)] by simp
  next
    case (remove j u s1 removed s2)
    from less.hyps[OF remove(6) remove(5)] have "R (tc @ removed) s2 tc' s'" .
    then show ?thesis using assms(4)[OF remove(1,2,3,4)] by simp
  qed
qed

subsection \<open>What the loop of \<open>processSeqnoAck\<close> establishes and preserves\<close>

lemma unacked_remove:
  assumes r: "removeSyncWrite (Some i) s = Returns removed s2"
    and i: "i < length (trackedWrites s)"
    and q: "node_position n t s = Inr q"
  shows "unacked n t s2 =
           drop (if cursor_next (it q) \<le> i then cursor_next (it q) else cursor_next (it q) - 1)
             (take i (tracked_seqnos s) @ drop (Suc i) (tracked_seqnos s))"
  using q
  by (simp add: unacked_def removeSyncWrite_effect(4)[OF r] remove_step(2)[OF r i]
        cursor_next_reposition)

lemma stopped_remove_nth:
  fixes xs :: "int list"
  assumes i: "i < length xs" and le: "xs ! i \<le> a"
    and st: "case drop c xs of [] \<Rightarrow> True | x # ys \<Rightarrow> a < x"
  shows "case drop (if c \<le> i then c else c - 1) (take i xs @ drop (Suc i) xs) of
           [] \<Rightarrow> True | x # ys \<Rightarrow> a < x"
proof (cases "c \<le> i")
  case False
  then show ?thesis unfolding drop_remove_nth[OF i] using st by simp
next
  case True
  then have cl: "c < length xs" using i by simp
  have d: "drop c xs = xs ! c # drop (Suc c) xs" using cl by (simp add: Cons_nth_drop_Suc)
  with st have ac: "a < xs ! c" by simp
  with le have "c \<noteq> i" by auto
  with True have ci: "c < i" by simp
  then have "drop c (take i xs) = xs ! c # drop (Suc c) (take i xs)"
    using i by (simp add: Cons_nth_drop_Suc[symmetric])
  then show ?thesis unfolding drop_remove_nth[OF i] using True ac by simp
qed

lemma advance_unacked:
  assumes n: "getNodeNext node tracking s = Inr (Some j)"
    and a: "advanceNodePosition node tracking s = Returns u s1"
  shows "unacked n t s1 =
           (if n = node \<and> t = tracking then drop (Suc j) (tracked_seqnos s)
            else unacked n t s)"
proof (cases "n = node \<and> t = tracking")
  case True
  then show ?thesis using advance_step(4)[OF n a] by simp
next
  case False
  then have np: "node_position n t s1 = node_position n t s"
    by (rule advance_step(5)[OF n a])
  show ?thesis using False unfolding unacked_def np advance_step(1)[OF n a] by auto
qed

lemma advance_unacked_subseq:
  assumes n: "getNodeNext node tracking s = Inr (Some j)"
    and a: "advanceNodePosition node tracking s = Returns u s1"
  shows "subseq (unacked n t s1) (unacked n t s)"
proof (cases "n = node \<and> t = tracking")
  case True
  then show ?thesis
    using advance_unacked[OF n a, of n t] unacked_Cons[OF n]
    by (auto intro: list_emb_Cons)
next
  case False
  then show ?thesis using advance_unacked[OF n a, of n t] by auto
qed

lemma advance_stopped:
  assumes n: "getNodeNext node tracking s = Inr (Some j)"
    and le: "getBySeqno (trackedWrites s ! j) \<le> a"
    and a: "advanceNodePosition node tracking s = Returns u s1"
    and st: "stopped n t a s"
  shows "stopped n t a s1"
proof (cases "n = node \<and> t = tracking")
  case True
  with st le unacked_Cons[OF n] show ?thesis by (simp add: stopped_def)
next
  case False
  then show ?thesis using st advance_unacked[OF n a, of n t] by (auto simp: stopped_def)
qed

lemma remove_stopped:
  assumes r: "removeSyncWrite (Some i) s = Returns removed s2"
    and i: "i < length (trackedWrites s)"
    and le: "getBySeqno (trackedWrites s ! i) \<le> a"
    and st: "stopped n t a s"
  shows "stopped n t a s2"
proof (cases "node_position n t s")
  case (Inl e)
  then show ?thesis by (simp add: stopped_def unacked_def removeSyncWrite_effect(4)[OF r])
next
  case (Inr q)
  have li: "i < length (tracked_seqnos s)" using i by (simp add: tracked_seqnos_def)
  have le': "tracked_seqnos s ! i \<le> a" using le i by (simp add: tracked_seqnos_def)
  have "case drop (cursor_next (it q)) (tracked_seqnos s) of [] \<Rightarrow> True | x # ys \<Rightarrow> a < x"
    using st Inr by (simp add: stopped_def unacked_def)
  from stopped_remove_nth[OF li le' this] show ?thesis
    unfolding stopped_def unacked_remove[OF r i Inr] .
qed

lemma processSeqnoAck_loop_toCommit:
  assumes ret: "processSeqnoAck_loop node tracking a tc s = Returns tc' s'"
  shows "\<exists>new. tc' = tc @ new \<and> subseq (map getBySeqno new) (unacked node tracking s)"
proof (rule processSeqnoAck_loop_rule[OF ret,
    where R = "\<lambda>tc s tc' s'. \<exists>new. tc' = tc @ new
                 \<and> subseq (map getBySeqno new) (unacked node tracking s)"], goal_cases)
  case (1 tc s p)
  then show ?case by simp
next
  case (2 tc s j u s1 tc' s')
  from 2(4) obtain new where new: "tc' = tc @ new"
    and sub: "subseq (map getBySeqno new) (unacked node tracking s1)" by blast
  from sub have "subseq (map getBySeqno new) (unacked node tracking s)"
    using advance_unacked_subseq[OF 2(1) 2(3), of node tracking]
    by (rule subseq_order.trans)
  with new show ?case by blast
next
  case (3 tc s j u s1 removed s2 tc' s')
  from advance_step[OF 3(1) 3(3)] obtain p
    where ts: "tracked_seqnos s1 = tracked_seqnos s"
      and len: "length (trackedWrites s1) = length (trackedWrites s)"
      and sq: "getBySeqno (trackedWrites s1 ! j) = getBySeqno (trackedWrites s ! j)"
      and p: "node_position node tracking s1 = Inr p" and ip: "it p = Some j"
    by blast
  from getNodeNext_unacked(1)[OF 3(1)] len have j: "j < length (trackedWrites s1)" by simp
  from remove_step(1)[OF 3(4) j] have rm: "removed = [trackedWrites s1 ! j]" .
  from remove_step(4)[OF 3(4) j p ip] ts
  have u2: "unacked node tracking s2 = drop (Suc j) (tracked_seqnos s)" by simp
  from 3(5) obtain new where new: "tc' = (tc @ removed) @ new"
    and sub: "subseq (map getBySeqno new) (unacked node tracking s2)" by blast
  have "subseq (map getBySeqno (removed @ new)) (unacked node tracking s)"
    unfolding unacked_Cons[OF 3(1)] using sub rm sq u2 by simp
  with new show ?case by (intro exI[of _ "removed @ new"]) simp
qed

lemma processSeqnoAck_loop_subseq:
  assumes ret: "processSeqnoAck_loop node tracking a tc s = Returns tc' s'"
  shows "subseq (tracked_seqnos s') (tracked_seqnos s)"
proof (rule processSeqnoAck_loop_rule[OF ret,
    where R = "\<lambda>tc s tc' s'. subseq (tracked_seqnos s') (tracked_seqnos s)"], goal_cases)
  case (1 tc s p)
  then show ?case by simp
next
  case (2 tc s j u s1 tc' s')
  then show ?case using advance_step(1)[OF 2(1) 2(3)] by simp
next
  case (3 tc s j u s1 removed s2 tc' s')
  from advance_step(1,2)[OF 3(1) 3(3)] getNodeNext_unacked(1)[OF 3(1)]
  have ts: "tracked_seqnos s1 = tracked_seqnos s" and j: "j < length (trackedWrites s1)"
    by simp_all
  have "subseq (tracked_seqnos s2) (tracked_seqnos s)"
    unfolding remove_step(2)[OF 3(4) j] ts by (rule subseq_remove_nth)
  with 3(5) show ?case by (rule subseq_order.trans)
qed

lemma processSeqnoAck_loop_stopped:
  assumes ret: "processSeqnoAck_loop node tracking a tc s = Returns tc' s'"
  shows "stopped node tracking a s' \<and> (\<exists>p. node_position node tracking s' = Inr p)"
  by (rule processSeqnoAck_loop_rule[OF ret,
    where R = "\<lambda>tc s tc' s'. stopped node tracking a s'
                 \<and> (\<exists>p. node_position node tracking s' = Inr p)"]) blast+

lemma processSeqnoAck_loop_keeps_stopped:
  assumes ret: "processSeqnoAck_loop node tracking a tc s = Returns tc' s'"
  shows "stopped n t a s \<longrightarrow> stopped n t a s'"
proof (rule processSeqnoAck_loop_rule[OF ret,
    where R = "\<lambda>tc s tc' s'. stopped n t a s \<longrightarrow> stopped n t a s'"], goal_cases)
  case (1 tc s p)
  then show ?case by simp
next
  case (2 tc s j u s1 tc' s')
  then show ?case using advance_stopped[OF 2(1) 2(2) 2(3), of n t] by blast
next
  case (3 tc s j u s1 removed s2 tc' s')
  from advance_step(2,3)[OF 3(1) 3(3)] getNodeNext_unacked(1)[OF 3(1)] 3(2)
  have j: "j < length (trackedWrites s1)" and le: "getBySeqno (trackedWrites s1 ! j) \<le> a"
    by simp_all
  show ?case
    using 3(5) advance_stopped[OF 3(1) 3(2) 3(3), of n t] remove_stopped[OF 3(4) j le, of n t]
    by blast
qed

lemma processSeqnoAck_loop_lastAckSeqno:
  assumes ret: "processSeqnoAck_loop node tracking a tc s = Returns tc' s'"
  shows "map_sum id lastAckSeqno (node_position n t s')
           = map_sum id lastAckSeqno (node_position n t s)"
proof (rule processSeqnoAck_loop_rule[OF ret,
    where R = "\<lambda>tc s tc' s'. map_sum id lastAckSeqno (node_position n t s')
                 = map_sum id lastAckSeqno (node_position n t s)"], goal_cases)
  case (1 tc s p)
  then show ?case by simp
next
  case (2 tc s j u s1 tc' s')
  then show ?case using advance_step(6)[OF 2(1) 2(3), of n t] by simp
next
  case (3 tc s j u s1 removed s2 tc' s')
  from advance_step(2)[OF 3(1) 3(3)] getNodeNext_unacked(1)[OF 3(1)]
  have j: "j < length (trackedWrites s1)" by simp
  show ?case
    using 3(5) advance_step(6)[OF 3(1) 3(3), of n t] remove_step(5)[OF 3(4) j, of n t]
    by simp
qed

subsection \<open>\<open>processSeqnoAck\<close>\<close>

lemma unacked_subseq: "subseq (unacked n t s) (tracked_seqnos s)"
proof (cases "node_position n t s")
  case (Inl e)
  then show ?thesis by (simp add: unacked_def)
next
  case (Inr q)
  have "subseq (drop (cursor_next (it q)) (tracked_seqnos s))
          (take (cursor_next (it q)) (tracked_seqnos s) @ drop (cursor_next (it q)) (tracked_seqnos s))"
    by (rule subseq_drop_many) simp
  then show ?thesis using Inr by (simp add: unacked_def)
qed

lemma processSeqnoAck_Returns:
  assumes "processSeqnoAck node tracking a tc s = Returns tc' s'"
  obtains s1 u where "processSeqnoAck_loop node tracking a tc s = Returns tc' s1"
    and "updateNodeAck node tracking a s1 = Returns u s'"
  using assms by (auto simp: processSeqnoAck_def split: option.splits outcome.splits)

lemma updateNodeAck_unacked:
  assumes "updateNodeAck node tracking a s = Returns u s'"
  shows "tracked_seqnos s' = tracked_seqnos s" and "unacked n t s' = unacked n t s"
proof -
  from updateNodeAck_effect[OF assms] obtain pos
    where pos: "node_position node tracking s = Inr pos"
      and tr: "trackedWrites s' = trackedWrites s"
      and np: "\<And>n t. node_position n t s' =
                  (if n = node \<and> t = tracking then Inr (pos\<lparr>lastAckSeqno := a\<rparr>)
                   else node_position n t s)"
    by blast
  show ts: "tracked_seqnos s' = tracked_seqnos s" by (simp add: tracked_seqnos_def tr)
  show "unacked n t s' = unacked n t s"
  proof (cases "n = node \<and> t = tracking")
    case True
    then have "node_position n t s' = Inr (pos\<lparr>lastAckSeqno := a\<rparr>)"
      and "node_position n t s = Inr pos" using pos by (simp_all add: np)
    then show ?thesis unfolding unacked_def ts by simp
  next
    case False
    then have "node_position n t s' = node_position n t s" by (auto simp: np)
    then show ?thesis unfolding unacked_def ts by simp
  qed
qed

lemma processSeqnoAck_post:
  assumes ret: "processSeqnoAck node tracking a tc s = Returns tc' s'"
  shows "\<exists>new. tc' = tc @ new \<and> subseq (map getBySeqno new) (tracked_seqnos s)"
    and "subseq (tracked_seqnos s') (tracked_seqnos s)"
    and "stopped node tracking a s'"
    and "stopped n t a s \<Longrightarrow> stopped n t a s'"
    and "\<exists>p. node_position node tracking s' = Inr p \<and> lastAckSeqno p = a"
    and "\<not> (n = node \<and> t = tracking) \<Longrightarrow>
           map_sum id lastAckSeqno (node_position n t s')
             = map_sum id lastAckSeqno (node_position n t s)"
proof -
  from ret obtain s1 u where l: "processSeqnoAck_loop node tracking a tc s = Returns tc' s1"
    and up: "updateNodeAck node tracking a s1 = Returns u s'"
    by (rule processSeqnoAck_Returns)
  from updateNodeAck_effect[OF up] obtain pos
    where pos: "node_position node tracking s1 = Inr pos"
      and np: "\<And>n t. node_position n t s' =
                  (if n = node \<and> t = tracking then Inr (pos\<lparr>lastAckSeqno := a\<rparr>)
                   else node_position n t s1)"
    by blast
  note un = updateNodeAck_unacked[OF up]
  from processSeqnoAck_loop_toCommit[OF l] obtain new where new: "tc' = tc @ new"
    and sub: "subseq (map getBySeqno new) (unacked node tracking s)" by blast
  from sub unacked_subseq have "subseq (map getBySeqno new) (tracked_seqnos s)"
    by (rule subseq_order.trans)
  with new show "\<exists>new. tc' = tc @ new \<and> subseq (map getBySeqno new) (tracked_seqnos s)"
    by blast
  show "subseq (tracked_seqnos s') (tracked_seqnos s)"
    unfolding un(1) by (rule processSeqnoAck_loop_subseq[OF l])
  show "stopped node tracking a s'"
    using processSeqnoAck_loop_stopped[OF l] by (simp add: stopped_def un(2))
  show "stopped n t a s'" if "stopped n t a s"
    using processSeqnoAck_loop_keeps_stopped[OF l, of n t] that
    by (simp add: stopped_def un(2))
  show "\<exists>p. node_position node tracking s' = Inr p \<and> lastAckSeqno p = a"
    by (simp add: np)
  show "map_sum id lastAckSeqno (node_position n t s')
             = map_sum id lastAckSeqno (node_position n t s)"
    if "\<not> (n = node \<and> t = tracking)"
  proof -
    from that have "node_position n t s' = node_position n t s1" by (auto simp: np)
    then show ?thesis using processSeqnoAck_loop_lastAckSeqno[OF l, of n t] by simp
  qed
qed

lemma processSeqnoAck_idle:
  assumes p: "node_position node tracking s = Inr p" and a: "lastAckSeqno p = a"
    and st: "stopped node tracking a s"
  shows "processSeqnoAck node tracking a tc s = Returns tc s"
proof -
  from p obtain chain where "firstChain s = Some chain"
    by (auto simp: node_position_def split: option.splits)
  then show ?thesis
    by (simp add: processSeqnoAck_def processSeqnoAck_loop_idle[OF p st]
          updateNodeAck_same[OF p a])
qed


lemma seqnoAckReceived_Returns:
  assumes "seqnoAckReceived n a adm = Returns r adm'"
  obtains m s1 d s2 u v where "processSeqnoAck n Memory a [] (state adm) = Returns m s1"
    and "processSeqnoAck n Disk a m s1 = Returns d s2"
    and "commit_all d (vb adm) = Returns u v"
    and "adm' = adm\<lparr>state := s2, vb := v\<rparr>" and "r = ENGINE_SUCCESS"
  using assms by (auto simp: seqnoAckReceived_def split: outcome.splits)


subsection \<open>\<open>addSyncWrite\<close>\<close>






subsection \<open>\<open>processTimeout\<close>\<close>






subsection \<open>The order of the tracked seqnos\<close>












subsection \<open>Evaluating the monitor on the example states\<close>

lemmas adm_eval =
  setReplicationTopology_def ADM_new_def json_at0_def maxReplicas_def
  State_setReplicationTopology_def node_name_def ReplicationChain_new_def UndefinedNode_def
  begin_it_def next_it_def and_then_def prepare_def addSyncWrite_def isDurabilityPossible_def
  chain_isDurabilityPossible_def chain_size_def State_addSyncWrite_def SyncWrite_new_def
  getActive_def advanceNodePosition_def node_position_def put_position_def Let_def
  getBySeqno_def ack_def updateNodeAck_def seqnoAckReceived_def processSeqnoAck_def
  getNodeNext_def isSatisfied_def removeSyncWrite_def reposition_def reposition_node_def
  commit_def abort_def getTrackedSeqnos_def notifyLocalPersistence_def
  processTimeout_def removeExpired_def isExpired_def topology_a_r1_r2_def active_vb_def
  word_le_nat_alt

lemma Returns_outcome_state:
  "returned r = Some x \<Longrightarrow> r = Returns x (outcome_state r)"
  by (cases r) simp_all

lemma three_prepares_tracked:
  "getTrackedSeqnos (outcome_state three_prepares) = [10, 11, 12]"
  by (simp add: three_prepares_def adm_eval)

lemma three_prepares_ack:
  "returned (seqnoAckReceived ''r1'' 11 (outcome_state three_prepares)) = Some ENGINE_SUCCESS"
  by (simp add: three_prepares_def adm_eval processSeqnoAck_loop.simps)



section \<open>Active durability monitor: claims\<close>

text \<open>
  Claim C1. With the topology \<open>[["a","r1","r2"]]\<close>, whose majority is 2, and three
  tracked \<open>Majority\<close> prepares with seqnos 10, 11 and 12 that no replica has
  acknowledged, \<open>seqnoAckReceived("r1", 11)\<close> returns \<open>ENGINE_SUCCESS\<close>, calls
  \<open>VBucket::commit\<close> for seqno 10 and then for seqno 11 and for nothing else, and
  leaves seqno 12 as the only tracked SyncWrite.
\<close>

theorem seqnoAckReceived_majority_commit:
  "map_option majority (firstChain (state (outcome_state three_prepares))) = Some 2
   \<and> getTrackedSeqnos (outcome_state three_prepares) = [10, 11, 12]
   \<and> calls (vb (outcome_state three_prepares)) = []
   \<and> returned (and_then three_prepares (seqnoAckReceived ''r1'' 11)) = Some ENGINE_SUCCESS
   \<and> calls (vb (outcome_state (and_then three_prepares (seqnoAckReceived ''r1'' 11))))
        = [Commit ''k10'' 10 1, Commit ''k11'' 11 2]
   \<and> getTrackedSeqnos (outcome_state (and_then three_prepares (seqnoAckReceived ''r1'' 11)))
        = [12]"
  by (simp add: three_prepares_def adm_eval processSeqnoAck_loop.simps)




text \<open>
  Claim C7. When \<open>seqnoAckReceived(n, s)\<close> has returned, the same call made again
  returns \<open>ENGINE_SUCCESS\<close> and leaves the monitor and its VBucket exactly as they
  were: no iterator has moved, no SyncWrite has a new ack, and nothing is committed.
  Each of its two passes returns the to-commit list it was given, and the state, as
  they were.
\<close>

theorem seqnoAckReceived_repeated:
  assumes "seqnoAckReceived n a adm = Returns r adm'"
  shows "processSeqnoAck n Memory a [] (state adm') = Returns [] (state adm')
       \<and> processSeqnoAck n Disk a [] (state adm') = Returns [] (state adm')
       \<and> seqnoAckReceived n a adm' = Returns ENGINE_SUCCESS adm'"
proof -
  from assms obtain m s1 d s2 u v
    where pm: "processSeqnoAck n Memory a [] (state adm) = Returns m s1"
      and pd: "processSeqnoAck n Disk a m s1 = Returns d s2"
      and adm': "adm' = adm\<lparr>state := s2, vb := v\<rparr>"
    by (rule seqnoAckReceived_Returns)
  have s: "state adm' = s2" unfolding adm' by simp
  from processSeqnoAck_post(3,5)[OF pm] obtain p1
    where st1: "stopped n Memory a s1"
      and p1: "node_position n Memory s1 = Inr p1" and a1: "lastAckSeqno p1 = a" by blast
  from processSeqnoAck_post(3,5)[OF pd] obtain pdk
    where std: "stopped n Disk a s2"
      and pdk: "node_position n Disk s2 = Inr pdk" and ad: "lastAckSeqno pdk = a" by blast
  from processSeqnoAck_post(4)[OF pd st1] have stm: "stopped n Memory a s2" .
  from processSeqnoAck_post(6)[OF pd, of n Memory] p1 a1
  obtain pm2 where pm2: "node_position n Memory s2 = Inr pm2" and am: "lastAckSeqno pm2 = a"
    by (cases "node_position n Memory s2") auto
  have 1: "processSeqnoAck n Memory a [] s2 = Returns [] s2"
    by (rule processSeqnoAck_idle[OF pm2 am stm])
  have 2: "processSeqnoAck n Disk a [] s2 = Returns [] s2"
    by (rule processSeqnoAck_idle[OF pdk ad std])
  have 3: "seqnoAckReceived n a adm' = Returns ENGINE_SUCCESS adm'"
    by (simp add: seqnoAckReceived_def s 1 2)
  show ?thesis unfolding s using 1 2 3[unfolded s] s by simp
qed

text \<open>
  The theorem at the three \<open>Majority\<close> prepares, for \<open>seqnoAckReceived("r1", 11)\<close>.
\<close>

theorem seqnoAckReceived_repeated_witness:
  "returned (seqnoAckReceived ''r1'' 11 (outcome_state three_prepares)) = Some ENGINE_SUCCESS
   \<and> seqnoAckReceived ''r1'' 11
        (outcome_state (seqnoAckReceived ''r1'' 11 (outcome_state three_prepares)))
      = Returns ENGINE_SUCCESS
          (outcome_state (seqnoAckReceived ''r1'' 11 (outcome_state three_prepares)))"
  using seqnoAckReceived_repeated[OF Returns_outcome_state[OF three_prepares_ack]]
    three_prepares_ack by blast






section \<open>Collections manifest: lemmas\<close>








section \<open>Collections manifest: claims\<close>




end
